theory Spec2Isabelle
  imports Main "HOL-Library.Word"
begin

section \<open>Data model of visual\_benchmarking.h\<close>

text \<open>
  The header of \<^verbatim>\<open>src/main/main.cpp\<close> declares three structures and two classes.
  \<^verbatim>\<open>long long\<close> is a 64-bit word read as two's complement, \<^verbatim>\<open>uint32_t\<close> a 32-bit
  word read as unsigned, \<^verbatim>\<open>int\<close> a 32-bit word read as two's complement, and
  \<^verbatim>\<open>std::string\<close> a list of bytes.
\<close>

record InstrumentationSession =
  Name :: string

record ProfileResult =
  Name :: string
  Start :: "64 word"
  End :: "64 word"
  ThreadID :: "32 word"

text \<open>
  A \<^verbatim>\<open>std::ofstream\<close> is the file its buffer is open on (if any) and its error state.
  One flag stands for \<^verbatim>\<open>rdstate() != goodbit\<close>: the code never tells failbit from
  badbit, and an insertion does nothing as soon as either is set.
\<close>

record ofstream =
  is_open :: "string option"
  failed :: bool

text \<open>
  The singleton \<^verbatim>\<open>Instrumentor::Get()\<close> with the part of the process its methods
  touch: the files on disk (path to contents), which paths the system lets the process
  open for writing, and the bytes sent to \<^verbatim>\<open>std::cout\<close>.
\<close>

record world =
  m_CurrentSession :: "InstrumentationSession option"
  m_OutputStream :: ofstream
  m_ProfileCount :: "32 word"
  disk :: "string \<rightharpoonup> string"
  openable :: "string \<Rightarrow> bool"
  cout :: string

record InstrumentationTimer =
  m_Name :: string
  m_StartTimepoint :: "64 word"
  m_Stopped :: bool

section \<open>The standard library the code calls\<close>

subsection \<open>Streams\<close>

text \<open>
  \<^verbatim>\<open>basic_ofstream::open\<close> fails when the buffer is already open or the system refuses
  the path, and then sets failbit; when it succeeds it truncates the file
  (\<^verbatim>\<open>ios::out | ios::trunc\<close>) and clears the error state.
\<close>

definition ofstream_open :: "string \<Rightarrow> world \<Rightarrow> world" where
  "ofstream_open filepath w =
     (if is_open (m_OutputStream w) = None \<and> openable w filepath
      then w\<lparr>m_OutputStream := \<lparr>is_open = Some filepath, failed = False\<rparr>,
             disk := (disk w)(filepath \<mapsto> [])\<rparr>
      else w\<lparr>m_OutputStream := (m_OutputStream w)\<lparr>failed := True\<rparr>\<rparr>)"

text \<open>
  \<^verbatim>\<open>m_OutputStream << bytes\<close>. With an error bit set the sentry fails and nothing is
  written. With no file open the buffer accepts no byte and badbit is set (unless there
  was no byte to write). Otherwise the bytes go to the end of the file. Every method
  of the class flushes before it returns, and \<^verbatim>\<open>close\<close> flushes too, so the bytes are
  put into the file at once and \<^verbatim>\<open>flush\<close> has nothing left to do. Failures of the
  device itself (a full disk) are outside the model.
\<close>

definition put :: "string \<Rightarrow> world \<Rightarrow> world" where
  "put bytes w =
     (if failed (m_OutputStream w) \<or> bytes = [] then w
      else case is_open (m_OutputStream w) of
             None \<Rightarrow> w\<lparr>m_OutputStream := (m_OutputStream w)\<lparr>failed := True\<rparr>\<rparr>
           | Some p \<Rightarrow>
               w\<lparr>disk := (disk w)(p \<mapsto> (case disk w p of None \<Rightarrow> [] | Some c \<Rightarrow> c) @ bytes)\<rparr>)"

text \<open>\<^verbatim>\<open>basic_ofstream::close\<close> sets failbit when no file is open, and leaves the
  error state alone otherwise.\<close>

definition ofstream_close :: "world \<Rightarrow> world" where
  "ofstream_close w =
     (case is_open (m_OutputStream w) of
        None \<Rightarrow> w\<lparr>m_OutputStream := (m_OutputStream w)\<lparr>failed := True\<rparr>\<rparr>
      | Some p \<Rightarrow> w\<lparr>m_OutputStream := (m_OutputStream w)\<lparr>is_open := None\<rparr>\<rparr>)"

definition endl :: string where
  "endl = [CHR 0x0A]"

definition cout_put :: "string \<Rightarrow> world \<Rightarrow> world" where
  "cout_put text w = w\<lparr>cout := cout w @ text\<rparr>"

subsection \<open>Printing integers\<close>

text \<open>\<^verbatim>\<open>operator<<\<close> prints an integer in decimal, with a minus sign when it is
  negative and no leading zero (the "C" locale).\<close>

definition digit_char :: "nat \<Rightarrow> char" where
  "digit_char d = char_of (48 + d)"

function show_nat :: "nat \<Rightarrow> string" where
  "show_nat n = (if n < 10 then [digit_char n] else show_nat (n div 10) @ [digit_char (n mod 10)])"
  by pat_completeness auto
termination
  by (relation "measure id") auto

declare show_nat.simps [simp del]

definition show_int :: "int \<Rightarrow> string" where
  "show_int i = (if i < 0 then CHR ''-'' # show_nat (nat (- i)) else show_nat (nat i))"

subsection \<open>std::replace\<close>

definition replace :: "'a \<Rightarrow> 'a \<Rightarrow> 'a list \<Rightarrow> 'a list" where
  "replace old new xs = map (\<lambda>x. if x = old then new else x) xs"

section \<open>class Instrumentor\<close>

text \<open>The constructor: no session, a stream that was never opened, no profile counted.
  The disk and the permissions are those of the process.\<close>

definition Instrumentor :: "(string \<rightharpoonup> string) \<Rightarrow> (string \<Rightarrow> bool) \<Rightarrow> world" where
  "Instrumentor d ok =
     \<lparr>m_CurrentSession = None, m_OutputStream = \<lparr>is_open = None, failed = False\<rparr>,
      m_ProfileCount = 0, disk = d, openable = ok, cout = []\<rparr>"

definition header :: string where
  \<open>header = ''{"otherData": {},"traceEvents":[''\<close>

definition footer :: string where
  \<open>footer = '']}''\<close>

definition WriteHeader :: "world \<Rightarrow> world" where
  "WriteHeader w = put header w"

definition WriteFooter :: "world \<Rightarrow> world" where
  "WriteFooter w = put footer w"

definition BeginSession :: "string \<Rightarrow> string \<Rightarrow> world \<Rightarrow> world" where
  "BeginSession name filepath w =
     (let w1 = ofstream_open filepath w;
          w2 = WriteHeader w1;
          w3 = w2\<lparr>m_CurrentSession := Some \<lparr>InstrumentationSession.Name = name\<rparr>\<rparr>
      in cout_put (''Session started: '' @ name @ endl) w3)"

definition EndSession :: "world \<Rightarrow> world" where
  "EndSession w =
     (let w1 = WriteFooter w;
          w2 = ofstream_close w1;
          w3 = w2\<lparr>m_CurrentSession := None\<rparr>;
          w4 = w3\<lparr>m_ProfileCount := 0\<rparr>
      in cout_put (''Session ended'' @ endl) w4)"

text \<open>The chunks that \<^verbatim>\<open>WriteProfile\<close> inserts after the separator, one per
  \<^verbatim>\<open><<\<close>, in the order of the source. The subtraction is that of \<^verbatim>\<open>long long\<close>, here
  with wrap-around; the results below that speak of the duration ask that it fits.\<close>

definition record_chunks :: "ProfileResult \<Rightarrow> string \<Rightarrow> string list" where
  \<open>record_chunks result name =
     [''{'',
      ''"cat":"function",'',
      ''"dur":'', show_int (sint (End result - Start result)), '','',
      ''"name":"'', name, ''",'',
      ''"ph":"X",'',
      ''"pid":0,'',
      ''"tid":'', show_nat (unat (ThreadID result)), '','',
      ''"ts":'', show_int (sint (Start result)),
      ''}'']\<close>

definition WriteProfile :: "ProfileResult \<Rightarrow> world \<Rightarrow> world" where
  "WriteProfile result w =
     (let w1 = w\<lparr>m_ProfileCount := m_ProfileCount w + 1\<rparr>;
          w2 = (if 0 < sint (m_ProfileCount w) then put '','' w1 else w1);
          name = replace (CHR 0x22) (CHR 0x27) (Name result);
          w3 = fold put (record_chunks result name) w2
      in cout_put (''Profile written for: '' @ name @ endl) w3)"

section \<open>class InstrumentationTimer\<close>

text \<open>
  The clock is read by the caller of the model: \<open>now\<close> is what
  \<^verbatim>\<open>high_resolution_clock::now()\<close> returns, already as the count of microseconds
  that \<^verbatim>\<open>time_point_cast<microseconds>\<close> gives, and \<open>tid\<close> is the hash of the
  running thread's id cut to 32 bits. The timer keeps a pointer to its name; the model
  keeps the string it points to, which the caller must leave alive and unchanged.
\<close>

definition InstrumentationTimer :: "string \<Rightarrow> 64 word \<Rightarrow> world \<Rightarrow> InstrumentationTimer \<times> world" where
  "InstrumentationTimer name now w =
     (\<lparr>m_Name = name, m_StartTimepoint = now, m_Stopped = False\<rparr>,
      cout_put (''Timer started for: '' @ name @ endl) w)"

definition Stop :: "64 word \<Rightarrow> 32 word \<Rightarrow> InstrumentationTimer \<times> world \<Rightarrow> InstrumentationTimer \<times> world" where
  "Stop now tid tw =
     (let t = fst tw;
          w1 = WriteProfile \<lparr>Name = m_Name t, Start = m_StartTimepoint t, End = now, ThreadID = tid\<rparr> (snd tw)
      in (t\<lparr>m_Stopped := True\<rparr>, cout_put (''Timer stopped for: '' @ m_Name t @ endl) w1))"

text \<open>The destructor; the object is gone afterwards, so only the world is returned.\<close>

definition destroy :: "64 word \<Rightarrow> 32 word \<Rightarrow> InstrumentationTimer \<times> world \<Rightarrow> world" where
  "destroy now tid tw = (if \<not> m_Stopped (fst tw) then snd (Stop now tid tw) else snd tw)"

section \<open>What the program writes, in one piece\<close>

text \<open>The bytes of one record, as \<^verbatim>\<open>WriteProfile\<close> sends them after the separator.\<close>

definition serialize :: "ProfileResult \<Rightarrow> string" where
  "serialize result = concat (record_chunks result (replace (CHR 0x22) (CHR 0x27) (Name result)))"

text \<open>Strings with one comma between neighbours, and the records written by successive
  calls when the counter stood at \<open>k\<close> before the first of them.\<close>

fun joined :: "string list \<Rightarrow> string" where
  "joined [] = []"
| "joined [x] = x"
| "joined (x # y # ys) = x @ '','' @ joined (y # ys)"

fun records_from :: "nat \<Rightarrow> ProfileResult list \<Rightarrow> string" where
  "records_from k [] = []"
| "records_from k (r # rs) = (if 0 < k then '','' else []) @ serialize r @ records_from (Suc k) rs"

text \<open>A process that has just started: nothing on disk, every path may be opened.\<close>

definition fresh :: world where
  "fresh = Instrumentor Map.empty (\<lambda>p. True)"

section \<open>Runs of a program\<close>

text \<open>
  What a program can do with the header: call the public methods of the singleton, and
  construct, stop and destroy timers. A timer is named by a number; a call on a number
  that names no live timer is not a program and is skipped. The clock reading and the
  thread id of each call come with the command.
\<close>

datatype command =
    CallBeginSession string string
  | CallEndSession
  | CallWriteProfile ProfileResult
  | CallWriteHeader
  | CallWriteFooter
  | New nat string "64 word"
  | CallStop nat "64 word" "32 word"
  | Delete nat "64 word" "32 word"

type_synonym process = "world \<times> (nat \<rightharpoonup> InstrumentationTimer)"

fun exec :: "command \<Rightarrow> process \<Rightarrow> process" where
  "exec (CallBeginSession name filepath) (w, ts) = (BeginSession name filepath w, ts)"
| "exec CallEndSession (w, ts) = (EndSession w, ts)"
| "exec (CallWriteProfile result) (w, ts) = (WriteProfile result w, ts)"
| "exec CallWriteHeader (w, ts) = (WriteHeader w, ts)"
| "exec CallWriteFooter (w, ts) = (WriteFooter w, ts)"
| "exec (New i name now) (w, ts) =
     (snd (InstrumentationTimer name now w), ts(i \<mapsto> fst (InstrumentationTimer name now w)))"
| "exec (CallStop i now tid) (w, ts) =
     (case ts i of
        None \<Rightarrow> (w, ts)
      | Some t \<Rightarrow> (snd (Stop now tid (t, w)), ts(i \<mapsto> fst (Stop now tid (t, w)))))"
| "exec (Delete i now tid) (w, ts) =
     (case ts i of
        None \<Rightarrow> (w, ts)
      | Some t \<Rightarrow> (destroy now tid (t, w), ts(i := None)))"

definition run :: "command list \<Rightarrow> process \<Rightarrow> process" where
  "run cs p = fold exec cs p"

text \<open>Two commands that are the same up to the session name given to
  \<^verbatim>\<open>BeginSession\<close>.\<close>

fun same_but_session_name :: "command \<Rightarrow> command \<Rightarrow> bool" where
  "same_but_session_name (CallBeginSession name filepath) c =
     (case c of CallBeginSession name' filepath' \<Rightarrow> filepath = filepath' | _ \<Rightarrow> False)"
| "same_but_session_name c c' = (c = c')"

text \<open>Two worlds that agree on everything but the session object and the console: the
  stream, the counter, the disk and the permissions.\<close>

definition same_output :: "world \<Rightarrow> world \<Rightarrow> bool" where
  "same_output w w' =
     (m_OutputStream w = m_OutputStream w' \<and> m_ProfileCount w = m_ProfileCount w'
      \<and> disk w = disk w' \<and> openable w = openable w')"

section \<open>JSON\<close>

text \<open>
  What it means for the trace file to be parseable: a parser for the grammar of
  RFC 8259 over bytes. It yields the parsed value, an object as the list of its members
  in the order of the text. A string keeps its bytes; \<^verbatim>\<open>\uXXXX\<close> is decoded to the UTF-8
  bytes of that code unit, and bytes above 127 are taken as they are. A number is kept
  exactly, as mantissa and decimal exponent.
\<close>

datatype json =
    JNull
  | JBool bool
  | JNumber int int
  | JString string
  | JArray "json list"
  | JObject "(string \<times> json) list"

definition is_ws :: "char \<Rightarrow> bool" where
  "is_ws c = (c = CHR '' '' \<or> c = CHR 0x09 \<or> c = CHR 0x0A \<or> c = CHR 0x0D)"

definition skip_ws :: "string \<Rightarrow> string" where
  "skip_ws s = dropWhile is_ws s"

definition is_digit :: "char \<Rightarrow> bool" where
  "is_digit c = (48 \<le> (of_char c :: nat) \<and> (of_char c :: nat) \<le> 57)"

definition digit_val :: "char \<Rightarrow> nat" where
  "digit_val c = of_char c - 48"

definition nat_of_digits :: "string \<Rightarrow> nat" where
  "nat_of_digits ds = foldl (\<lambda>a c. 10 * a + digit_val c) 0 ds"

definition is_hex :: "char \<Rightarrow> bool" where
  "is_hex c = (is_digit c \<or> (65 \<le> (of_char c :: nat) \<and> (of_char c :: nat) \<le> 70)
                \<or> (97 \<le> (of_char c :: nat) \<and> (of_char c :: nat) \<le> 102))"

definition hex_val :: "char \<Rightarrow> nat" where
  "hex_val c = (if is_digit c then of_char c - 48
                else if (of_char c :: nat) \<le> 70 then of_char c - 55 else of_char c - 87)"

definition utf8 :: "nat \<Rightarrow> string" where
  "utf8 n = (if n < 128 then [char_of n]
             else if n < 2048 then [char_of (192 + n div 64), char_of (128 + n mod 64)]
             else [char_of (224 + n div 4096), char_of (128 + n div 64 mod 64), char_of (128 + n mod 64)])"

definition escape_char :: "char \<Rightarrow> char option" where
  "escape_char e =
     (if e = CHR 0x22 \<or> e = CHR 0x5C \<or> e = CHR ''/'' then Some e
      else if e = CHR ''b'' then Some (CHR 0x08)
      else if e = CHR ''f'' then Some (CHR 0x0C)
      else if e = CHR ''n'' then Some (CHR 0x0A)
      else if e = CHR ''r'' then Some (CHR 0x0D)
      else if e = CHR ''t'' then Some (CHR 0x09)
      else None)"

text \<open>The characters of a string, after its opening quote and up to the closing one.\<close>

fun parse_chars :: "string \<Rightarrow> (string \<times> string) option" where
  "parse_chars [] = None"
| "parse_chars (c # cs) =
     (if c = CHR 0x22 then Some ([], cs)
      else if c = CHR 0x5C then
        (case cs of
           [] \<Rightarrow> None
         | e # es \<Rightarrow>
             if e = CHR ''u'' then
               (case es of
                  h1 # h2 # h3 # h4 # rest \<Rightarrow>
                    if is_hex h1 \<and> is_hex h2 \<and> is_hex h3 \<and> is_hex h4
                    then map_option
                           (apfst ((@) (utf8 (((hex_val h1 * 16 + hex_val h2) * 16 + hex_val h3) * 16 + hex_val h4))))
                           (parse_chars rest)
                    else None
                | _ \<Rightarrow> None)
             else (case escape_char e of
                     None \<Rightarrow> None
                   | Some x \<Rightarrow> map_option (apfst ((#) x)) (parse_chars es)))
      else if (of_char c :: nat) < 32 then None
      else map_option (apfst ((#) c)) (parse_chars cs))"

definition parse_int_part :: "string \<Rightarrow> (nat \<times> string) option" where
  "parse_int_part s =
     (case s of
        [] \<Rightarrow> None
      | c # cs \<Rightarrow>
          if c = CHR ''0'' then Some (0, cs)
          else if is_digit c then Some (nat_of_digits (takeWhile is_digit s), dropWhile is_digit s)
          else None)"

definition parse_frac :: "string \<Rightarrow> (string \<times> string) option" where
  "parse_frac s =
     (case s of
        [] \<Rightarrow> Some ([], s)
      | c # cs \<Rightarrow>
          if c = CHR ''.''
          then (if takeWhile is_digit cs = [] then None
                else Some (takeWhile is_digit cs, dropWhile is_digit cs))
          else Some ([], s))"

definition parse_exp :: "string \<Rightarrow> (int \<times> string) option" where
  "parse_exp s =
     (case s of
        [] \<Rightarrow> Some (0, s)
      | c # cs \<Rightarrow>
          if c = CHR ''e'' \<or> c = CHR ''E''
          then (let neg = (cs \<noteq> [] \<and> hd cs = CHR ''-'');
                    ds = (if cs \<noteq> [] \<and> (hd cs = CHR ''-'' \<or> hd cs = CHR ''+'') then tl cs else cs)
                in if takeWhile is_digit ds = [] then None
                   else Some ((if neg then - 1 else 1) * int (nat_of_digits (takeWhile is_digit ds)),
                              dropWhile is_digit ds))
          else Some (0, s))"

definition parse_number :: "string \<Rightarrow> (json \<times> string) option" where
  "parse_number s =
     (let neg = (s \<noteq> [] \<and> hd s = CHR ''-'');
          s1 = (if neg then tl s else s)
      in case parse_int_part s1 of
           None \<Rightarrow> None
         | Some (n, s2) \<Rightarrow>
             (case parse_frac s2 of
                None \<Rightarrow> None
              | Some (fd, s3) \<Rightarrow>
                  (case parse_exp s3 of
                     None \<Rightarrow> None
                   | Some (e, s4) \<Rightarrow>
                       Some (JNumber ((if neg then - 1 else 1) * int (n * 10 ^ length fd + nat_of_digits fd))
                                     (e - int (length fd)), s4))))"

definition parse_literal :: "string \<Rightarrow> (json \<times> string) option" where
  "parse_literal s =
     (if take 4 s = ''true'' then Some (JBool True, drop 4 s)
      else if take 5 s = ''false'' then Some (JBool False, drop 5 s)
      else if take 4 s = ''null'' then Some (JNull, drop 4 s)
      else None)"

text \<open>
  A value, the elements of an array after its bracket, and the members of an object
  after its brace. The first argument bounds the depth of the calls; \<open>parse_json\<close>
  gives as much as the text is long, which is enough for every text (lemma
  \<open>parse_value_fuel\<close> below).
\<close>

fun parse_value :: "nat \<Rightarrow> string \<Rightarrow> (json \<times> string) option"
  and parse_elements :: "nat \<Rightarrow> string \<Rightarrow> (json list \<times> string) option"
  and parse_members :: "nat \<Rightarrow> string \<Rightarrow> ((string \<times> json) list \<times> string) option"
where
  "parse_value 0 s = None"
| "parse_value (Suc n) s =
     (case skip_ws s of
        [] \<Rightarrow> None
      | c # cs \<Rightarrow>
          if c = CHR ''{'' then
            (case skip_ws cs of
               [] \<Rightarrow> None
             | d # ds \<Rightarrow>
                 if d = CHR ''}'' then Some (JObject [], ds)
                 else map_option (apfst JObject) (parse_members n cs))
          else if c = CHR ''['' then
            (case skip_ws cs of
               [] \<Rightarrow> None
             | d # ds \<Rightarrow>
                 if d = CHR '']'' then Some (JArray [], ds)
                 else map_option (apfst JArray) (parse_elements n cs))
          else if c = CHR 0x22 then map_option (apfst JString) (parse_chars cs)
          else if c = CHR ''-'' \<or> is_digit c then parse_number (c # cs)
          else parse_literal (c # cs))"
| "parse_elements 0 s = None"
| "parse_elements (Suc n) s =
     (case parse_value n s of
        None \<Rightarrow> None
      | Some (v, r) \<Rightarrow>
          (case skip_ws r of
             [] \<Rightarrow> None
           | c # cs \<Rightarrow>
               if c = CHR '','' then map_option (apfst ((#) v)) (parse_elements n cs)
               else if c = CHR '']'' then Some ([v], cs)
               else None))"
| "parse_members 0 s = None"
| "parse_members (Suc n) s =
     (case skip_ws s of
        [] \<Rightarrow> None
      | q # ks \<Rightarrow>
          if q \<noteq> CHR 0x22 then None
          else (case parse_chars ks of
                  None \<Rightarrow> None
                | Some (k, r) \<Rightarrow>
                    (case skip_ws r of
                       [] \<Rightarrow> None
                     | c # cs \<Rightarrow>
                         if c \<noteq> CHR '':'' then None
                         else (case parse_value n cs of
                                 None \<Rightarrow> None
                               | Some (v, r') \<Rightarrow>
                                   (case skip_ws r' of
                                      [] \<Rightarrow> None
                                    | d # ds \<Rightarrow>
                                        if d = CHR '','' then map_option (apfst ((#) (k, v))) (parse_members n ds)
                                        else if d = CHR ''}'' then Some ([(k, v)], ds)
                                        else None)))))"

definition parse_json :: "string \<Rightarrow> json option" where
  "parse_json s =
     (case parse_value (Suc (length s)) s of
        None \<Rightarrow> None
      | Some (v, r) \<Rightarrow> if skip_ws r = [] then Some v else None)"

text \<open>
  For the proof that the fuel given by \<open>parse_json\<close> is enough: a parse that succeeded
  with fuel \<open>n\<close> consumed something, and succeeds with the same result on any fuel
  that is at least \<open>n\<close>, or at least the number of bytes consumed.
\<close>

definition fuel_enough ::
  "nat \<Rightarrow> (nat \<Rightarrow> string \<Rightarrow> ('a \<times> string) option) \<Rightarrow> string \<Rightarrow> 'a \<times> string \<Rightarrow> bool" where
  "fuel_enough n f s a =
     (length (snd a) < length s
      \<and> (\<forall>m. n \<le> m \<or> length s - length (snd a) \<le> m \<longrightarrow> f m s = Some a))"

section \<open>The trace format of the specification\<close>

text \<open>
  The document the specification describes for a list of records: an object with an
  empty \<^verbatim>\<open>otherData\<close> and the array \<^verbatim>\<open>traceEvents\<close>, one object per record with the
  seven fields \<^verbatim>\<open>cat\<close>, \<^verbatim>\<open>dur\<close>, \<^verbatim>\<open>name\<close>, \<^verbatim>\<open>ph\<close>, \<^verbatim>\<open>pid\<close>, \<^verbatim>\<open>tid\<close>, \<^verbatim>\<open>ts\<close> in
  this order, \<^verbatim>\<open>dur\<close> being end minus start as integers and \<^verbatim>\<open>name\<close> the name with
  each double quote turned into an apostrophe.
\<close>

definition event_json :: "ProfileResult \<Rightarrow> json" where
  "event_json result =
     JObject
       [(''cat'', JString ''function''),
        (''dur'', JNumber (sint (End result) - sint (Start result)) 0),
        (''name'', JString (replace (CHR 0x22) (CHR 0x27) (Name result))),
        (''ph'', JString ''X''),
        (''pid'', JNumber 0 0),
        (''tid'', JNumber (int (unat (ThreadID result))) 0),
        (''ts'', JNumber (sint (Start result)) 0)]"

definition trace_json :: "ProfileResult list \<Rightarrow> json" where
  "trace_json rs = JObject [(''otherData'', JObject []), (''traceEvents'', JArray (map event_json rs))]"

text \<open>
  A name with no backslash and no control character (no byte below 32), and a record
  whose two clock readings have a difference that fits in the 64 bits of
  \<^verbatim>\<open>long long\<close>, as any two readings \<open>0 \<le> start \<le> end\<close> have.
\<close>

definition plain_name :: "string \<Rightarrow> bool" where
  "plain_name s = list_all (\<lambda>c. c \<noteq> CHR 0x5C \<and> 32 \<le> (of_char c :: nat)) s"

definition duration_fits :: "ProfileResult \<Rightarrow> bool" where
  "duration_fits result =
     (- (2 ^ 63) \<le> sint (End result) - sint (Start result)
      \<and> sint (End result) - sint (Start result) < 2 ^ 63)"

text \<open>
  A completed scope timer, given as the record it hands over: a timer with that name is
  constructed when the clock reads \<open>Start\<close>, and destroyed, not having been stopped,
  when the clock reads \<open>End\<close>, on the thread with that id.
\<close>

definition scope_timer :: "ProfileResult \<Rightarrow> world \<Rightarrow> world" where
  "scope_timer result w =
     destroy (End result) (ThreadID result) (InstrumentationTimer (Name result) (Start result) w)"

text \<open>Bytes that need no escape inside a JSON string, and what may follow a number.\<close>

definition json_safe :: "string \<Rightarrow> bool" where
  "json_safe s = list_all (\<lambda>c. c \<noteq> CHR 0x22 \<and> c \<noteq> CHR 0x5C \<and> 32 \<le> (of_char c :: nat)) s"

definition terminator :: "string \<Rightarrow> bool" where
  "terminator s = (case s of [] \<Rightarrow> True
     | c # cs \<Rightarrow> \<not> is_digit c \<and> c \<noteq> CHR ''.'' \<and> c \<noteq> CHR ''e'' \<and> c \<noteq> CHR ''E'')"

section \<open>Properties\<close>

subsection \<open>The stream\<close>

lemma cout_put_fields [simp]:
  "m_CurrentSession (cout_put t w) = m_CurrentSession w"
  "m_OutputStream (cout_put t w) = m_OutputStream w"
  "m_ProfileCount (cout_put t w) = m_ProfileCount w"
  "disk (cout_put t w) = disk w"
  "openable (cout_put t w) = openable w"
  "cout (cout_put t w) = cout w @ t"
  by (simp_all add: cout_put_def)

lemma put_fields [simp]:
  "m_CurrentSession (put b w) = m_CurrentSession w"
  "m_ProfileCount (put b w) = m_ProfileCount w"
  "openable (put b w) = openable w"
  "cout (put b w) = cout w"
  "is_open (m_OutputStream (put b w)) = is_open (m_OutputStream w)"
  by (simp_all add: put_def split: option.split)

lemma fold_put_fields [simp]:
  "m_CurrentSession (fold put bs w) = m_CurrentSession w"
  "m_ProfileCount (fold put bs w) = m_ProfileCount w"
  "openable (fold put bs w) = openable w"
  "cout (fold put bs w) = cout w"
  "is_open (m_OutputStream (fold put bs w)) = is_open (m_OutputStream w)"
  by (induction bs arbitrary: w) simp_all

lemma put_closed_disk [simp]:
  "is_open (m_OutputStream w) = None \<Longrightarrow> disk (put b w) = disk w"
  by (simp add: put_def)

lemma put_failed [simp]:
  "failed (m_OutputStream w) \<Longrightarrow> put b w = w"
  by (simp add: put_def)

lemma put_closed_failed:
  "is_open (m_OutputStream w) = None \<Longrightarrow> b \<noteq> [] \<Longrightarrow> failed (m_OutputStream (put b w))"
  by (simp add: put_def)

lemma fold_put_failed [simp]:
  "failed (m_OutputStream w) \<Longrightarrow> fold put bs w = w"
  by (induction bs arbitrary: w) simp_all

lemma fold_put_closed_disk [simp]:
  "is_open (m_OutputStream w) = None \<Longrightarrow> disk (fold put bs w) = disk w"
  by (induction bs arbitrary: w) simp_all

lemma put_open:
  "is_open (m_OutputStream w) = Some p \<Longrightarrow> \<not> failed (m_OutputStream w) \<Longrightarrow> disk w p = Some c \<Longrightarrow>
   put b w = w\<lparr>disk := (disk w)(p \<mapsto> c @ b)\<rparr>"
  by (cases "b = []") (auto simp: put_def fun_upd_idem)

lemma fold_put_open:
  "is_open (m_OutputStream w) = Some p \<Longrightarrow> \<not> failed (m_OutputStream w) \<Longrightarrow> disk w p = Some c \<Longrightarrow>
   fold put bs w = w\<lparr>disk := (disk w)(p \<mapsto> c @ concat bs)\<rparr>"
proof (induction bs arbitrary: w c)
  case Nil
  then show ?case by (simp add: fun_upd_idem)
next
  case (Cons b bs)
  let ?w1 = "w\<lparr>disk := (disk w)(p \<mapsto> c @ b)\<rparr>"
  have step: "put b w = ?w1"
    using Cons.prems by (rule put_open)
  have "fold put (b # bs) w = fold put bs ?w1"
    by (simp only: fold_simps step)
  also have "\<dots> = ?w1\<lparr>disk := (disk ?w1)(p \<mapsto> (c @ b) @ concat bs)\<rparr>"
    using Cons.prems by (intro Cons.IH) simp_all
  also have "\<dots> = w\<lparr>disk := (disk w)(p \<mapsto> c @ concat (b # bs))\<rparr>"
    by simp
  finally show ?case .
qed

lemma EndSession_is_closed [simp]: "is_open (m_OutputStream (EndSession w)) = None"
  by (simp add: EndSession_def ofstream_close_def WriteFooter_def Let_def split: option.split)

lemma WriteProfile_closed:
  assumes "is_open (m_OutputStream w) = None"
  shows "disk (WriteProfile r w) = disk w"
    and "m_ProfileCount (WriteProfile r w) = m_ProfileCount w + 1"
    and "is_open (m_OutputStream (WriteProfile r w)) = None"
  using assms
  by (simp_all add: WriteProfile_def Let_def)

lemma put_closed:
  "is_open (m_OutputStream w) = None \<Longrightarrow> b \<noteq> [] \<Longrightarrow>
   put b w = w\<lparr>m_OutputStream := \<lparr>is_open = None, failed = True\<rparr>\<rparr>"
  by (cases "m_OutputStream w") (simp add: put_def)

lemma ofstream_close_closed:
  "is_open (m_OutputStream w) = None \<Longrightarrow>
   ofstream_close w = w\<lparr>m_OutputStream := \<lparr>is_open = None, failed = True\<rparr>\<rparr>"
  by (cases "m_OutputStream w") (simp add: ofstream_close_def)

lemma EndSession_closed:
  assumes "is_open (m_OutputStream w) = None"
  shows "EndSession w =
           w\<lparr>m_CurrentSession := None,
             m_OutputStream := \<lparr>is_open = None, failed = True\<rparr>,
             m_ProfileCount := 0,
             cout := cout w @ ''Session ended'' @ endl\<rparr>"
  using assms
  by (simp add: EndSession_def WriteFooter_def footer_def put_closed ofstream_close_closed cout_put_def)

subsection \<open>Ending a session that is not open\<close>

text \<open>
  Claim C6. \<^verbatim>\<open>EndSession\<close> called while no file is open on the stream (the session was
  never begun, or was ended already) changes no file: it sets the stream's error flag,
  clears the session pointer and the counter and prints its notice on the console, and
  nothing else. Every statement of the method is defined there (\<^verbatim>\<open>delete\<close> of a null
  pointer does nothing, the stream throws no exception), so the model is total.
  A second call in a row leaves the disk as the first call left it.
\<close>

theorem EndSession_without_open_session:
  "is_open (m_OutputStream w) = None \<Longrightarrow>
     EndSession w =
       w\<lparr>m_CurrentSession := None,
         m_OutputStream := \<lparr>is_open = None, failed = True\<rparr>,
         m_ProfileCount := 0,
         cout := cout w @ ''Session ended'' @ endl\<rparr>
     \<and> disk (EndSession w) = disk w
     \<and> disk (EndSession (EndSession v)) = disk (EndSession v)"
  by (simp add: EndSession_closed)

theorem EndSession_without_open_session_witness:
  "is_open (m_OutputStream (Instrumentor Map.empty (\<lambda>p. True))) = None
   \<and> disk (EndSession (Instrumentor Map.empty (\<lambda>p. True))) = Map.empty
   \<and> disk (EndSession (EndSession (Instrumentor Map.empty (\<lambda>p. True)))) = Map.empty"
proof -
  let ?w = "Instrumentor Map.empty (\<lambda>p. True)"
  have h: "is_open (m_OutputStream ?w) = None"
    by (simp add: Instrumentor_def)
  have d: "disk ?w = Map.empty"
    by (simp add: Instrumentor_def)
  from EndSession_without_open_session [OF h, of ?w]
  have "disk (EndSession ?w) = disk ?w \<and> disk (EndSession (EndSession ?w)) = disk (EndSession ?w)"
    by (rule conjunct2)
  with h d show ?thesis
    by simp
qed

subsection \<open>A timer that outlives its session\<close>

text \<open>
  Claim C10. After \<^verbatim>\<open>EndSession\<close> has closed the stream, \<^verbatim>\<open>Stop\<close> (called directly, or
  by the destructor of a timer that was not stopped) leaves every file as it was: the
  record is dropped. The counter, which \<^verbatim>\<open>EndSession\<close> left at 0, is incremented to 1
  all the same.
\<close>

theorem Stop_after_EndSession:
  "disk (snd (Stop now tid (t, EndSession w))) = disk (EndSession w)
   \<and> m_ProfileCount (snd (Stop now tid (t, EndSession w))) = 1
   \<and> m_Stopped (fst (Stop now tid (t, EndSession w)))
   \<and> disk (destroy now tid (t, EndSession w)) = disk (EndSession w)
   \<and> m_ProfileCount (destroy now tid (t, EndSession w)) = (if m_Stopped t then 0 else 1)"
proof -
  have c: "m_ProfileCount (EndSession w) = 0"
    by (simp add: EndSession_def Let_def)
  show ?thesis
    by (simp add: Stop_def destroy_def Let_def WriteProfile_closed c)
qed

subsection \<open>The methods on a closed and on an open stream\<close>

lemma BeginSession_closed:
  assumes "is_open (m_OutputStream w) = None" and "openable w filepath"
  shows "BeginSession name filepath w =
           w\<lparr>m_CurrentSession := Some \<lparr>InstrumentationSession.Name = name\<rparr>,
             m_OutputStream := \<lparr>is_open = Some filepath, failed = False\<rparr>,
             disk := (disk w)(filepath \<mapsto> header),
             cout := cout w @ ''Session started: '' @ name @ endl\<rparr>"
proof -
  let ?w1 = "w\<lparr>m_OutputStream := \<lparr>is_open = Some filepath, failed = False\<rparr>,
               disk := (disk w)(filepath \<mapsto> [])\<rparr>"
  have o: "ofstream_open filepath w = ?w1"
    using assms by (simp add: ofstream_open_def)
  have h: "put header ?w1 = ?w1\<lparr>disk := (disk ?w1)(filepath \<mapsto> [] @ header)\<rparr>"
    by (rule put_open) simp_all
  show ?thesis
    by (simp add: BeginSession_def WriteHeader_def o h cout_put_def)
qed

lemma BeginSession_not_opened:
  assumes "is_open (m_OutputStream w) \<noteq> None \<or> \<not> openable w filepath"
  shows "BeginSession name filepath w =
           w\<lparr>m_CurrentSession := Some \<lparr>InstrumentationSession.Name = name\<rparr>,
             m_OutputStream := (m_OutputStream w)\<lparr>failed := True\<rparr>,
             cout := cout w @ ''Session started: '' @ name @ endl\<rparr>"
proof -
  let ?w1 = "w\<lparr>m_OutputStream := (m_OutputStream w)\<lparr>failed := True\<rparr>\<rparr>"
  have o: "ofstream_open filepath w = ?w1"
    using assms by (auto simp add: ofstream_open_def)
  have h: "put header ?w1 = ?w1"
    by (rule put_failed) simp
  show ?thesis
    by (simp add: BeginSession_def WriteHeader_def o h cout_put_def)
qed

lemma EndSession_open:
  assumes "is_open (m_OutputStream w) = Some p" and "\<not> failed (m_OutputStream w)"
    and "disk w p = Some c"
  shows "EndSession w =
           w\<lparr>m_CurrentSession := None,
             m_OutputStream := \<lparr>is_open = None, failed = False\<rparr>,
             m_ProfileCount := 0,
             disk := (disk w)(p \<mapsto> c @ footer),
             cout := cout w @ ''Session ended'' @ endl\<rparr>"
proof -
  let ?w1 = "w\<lparr>disk := (disk w)(p \<mapsto> c @ footer)\<rparr>"
  have f: "put footer w = ?w1"
    using assms by (rule put_open)
  have c: "ofstream_close ?w1 = ?w1\<lparr>m_OutputStream := \<lparr>is_open = None, failed = False\<rparr>\<rparr>"
    using assms(1,2) by (cases "m_OutputStream w") (simp add: ofstream_close_def)
  show ?thesis
    by (simp add: EndSession_def WriteFooter_def f c cout_put_def)
qed

lemma WriteProfile_open:
  assumes "is_open (m_OutputStream w) = Some p" and "\<not> failed (m_OutputStream w)"
    and "disk w p = Some c"
  shows "WriteProfile r w =
           w\<lparr>m_ProfileCount := m_ProfileCount w + 1,
             disk := (disk w)(p \<mapsto> c @ (if 0 < sint (m_ProfileCount w) then '','' else []) @ serialize r),
             cout := cout w @ ''Profile written for: '' @ replace (CHR 0x22) (CHR 0x27) (Name r) @ endl\<rparr>"
proof -
  let ?sep = "if 0 < sint (m_ProfileCount w) then '','' else []"
  let ?w1 = "w\<lparr>m_ProfileCount := m_ProfileCount w + 1\<rparr>"
  let ?w2 = "?w1\<lparr>disk := (disk ?w1)(p \<mapsto> c @ ?sep)\<rparr>"
  let ?chunks = "record_chunks r (replace (CHR 0x22) (CHR 0x27) (Name r))"
  have s: "(if 0 < sint (m_ProfileCount w) then put '','' ?w1 else ?w1) = ?w2"
  proof (cases "0 < sint (m_ProfileCount w)")
    case True
    have "put '','' ?w1 = ?w1\<lparr>disk := (disk ?w1)(p \<mapsto> c @ '','')\<rparr>"
      using assms by (intro put_open) simp_all
    with True show ?thesis by simp
  next
    case False
    with assms(3) show ?thesis by (simp add: fun_upd_idem)
  qed
  have f: "fold put ?chunks ?w2 = ?w2\<lparr>disk := (disk ?w2)(p \<mapsto> (c @ ?sep) @ concat ?chunks)\<rparr>"
    using assms by (intro fold_put_open) simp_all
  show ?thesis
    unfolding WriteProfile_def Let_def s f serialize_def
    by (simp add: cout_put_def)
qed

subsection \<open>Beginning a session\<close>

text \<open>
  Claim C2, as stated, fails. \<^verbatim>\<open>BeginSession\<close> never assigns \<^verbatim>\<open>m_ProfileCount\<close>, and
  \<^verbatim>\<open>open\<close> on a stream that is still open fails: after a second \<^verbatim>\<open>BeginSession\<close>
  with no \<^verbatim>\<open>EndSession\<close> in between the new path does not exist, the stream is in
  its error state, and a counter that stood at 1 still stands at 1. The counter is not
  reset on a closed stream either: a record handed over after \<^verbatim>\<open>EndSession\<close> leaves it
  at 1, and the next \<^verbatim>\<open>BeginSession\<close> starts from there.
\<close>

theorem BeginSession_on_open_session:
  "disk (BeginSession ''B'' ''b.json'' (BeginSession ''A'' ''a.json'' fresh)) ''b.json'' = None
   \<and> failed (m_OutputStream (BeginSession ''B'' ''b.json'' (BeginSession ''A'' ''a.json'' fresh)))
   \<and> m_ProfileCount
        (BeginSession ''B'' ''b.json''
          (WriteProfile \<lparr>Name = ''f1'', Start = 100, End = 150, ThreadID = 7\<rparr>
            (BeginSession ''A'' ''a.json'' fresh))) = 1
   \<and> m_ProfileCount
        (BeginSession ''B'' ''b.json''
          (WriteProfile \<lparr>Name = ''f1'', Start = 100, End = 150, ThreadID = 7\<rparr>
            (EndSession (BeginSession ''A'' ''a.json'' fresh)))) = 1"
  by code_simp

text \<open>
  Claim C2, amended. When no file is open on the stream and the path can be opened,
  \<^verbatim>\<open>BeginSession\<close> opens and truncates the path and writes the header to it, so that
  the file holds the header and nothing else, and the stream is open on it with no
  error; the counter keeps the value it had, so it is 0 after the call when it was 0
  before it, as it is after construction and after \<^verbatim>\<open>EndSession\<close>.
\<close>

theorem BeginSession_closed_stream:
  assumes "is_open (m_OutputStream w) = None" and "openable w filepath"
  shows "disk (BeginSession name filepath w) = (disk w)(filepath \<mapsto> header)
       \<and> m_OutputStream (BeginSession name filepath w) = \<lparr>is_open = Some filepath, failed = False\<rparr>
       \<and> m_ProfileCount (BeginSession name filepath w) = m_ProfileCount w"
  by (simp add: BeginSession_closed [OF assms])

theorem BeginSession_closed_stream_witness:
  "disk (BeginSession ''P'' ''r.json'' fresh) ''r.json'' = Some header
   \<and> m_ProfileCount (BeginSession ''P'' ''r.json'' fresh) = 0"
proof -
  have 1: "is_open (m_OutputStream fresh) = None" by code_simp
  have 2: "openable fresh ''r.json''" by code_simp
  have 3: "m_ProfileCount fresh = 0" by code_simp
  from BeginSession_closed_stream [OF 1 2, of "''P''"] 3 show ?thesis
    by simp
qed

subsection \<open>Stopping a timer twice\<close>

text \<open>
  Claim C1 at a failing input. \<^verbatim>\<open>Stop\<close> sets \<^verbatim>\<open>m_Stopped\<close> but never reads it; only
  the destructor does. A timer started at 100 and stopped explicitly at 150 and again at
  160 leaves two records in the file, with two end times (durations 50 and 60).
\<close>

theorem Stop_twice_two_records:
  \<open>disk (snd (Stop 160 7 (Stop 150 7 (InstrumentationTimer ''f1'' 100 (BeginSession ''P'' ''r.json'' fresh)))))
     ''r.json''
   = Some ''{"otherData": {},"traceEvents":[{"cat":"function","dur":50,"name":"f1","ph":"X","pid":0,"tid":7,"ts":100},{"cat":"function","dur":60,"name":"f1","ph":"X","pid":0,"tid":7,"ts":100}''\<close>
  by code_simp

text \<open>In general: what \<^verbatim>\<open>Stop\<close> does to the world does not depend on the flag.\<close>

lemma Stop_ignores_m_Stopped:
  "snd (Stop now tid (t\<lparr>m_Stopped := b\<rparr>, w)) = snd (Stop now tid (t, w))"
  by (simp add: Stop_def Let_def)

text \<open>The destructor's half of the claim holds: after an explicit \<^verbatim>\<open>Stop\<close> it does
  nothing.\<close>

lemma destroy_after_Stop: "destroy now' tid' (Stop now tid tw) = snd (Stop now tid tw)"
  by (simp add: destroy_def Stop_def Let_def)

subsection \<open>Separating commas\<close>

lemma sint_count: "k < 2 ^ 31 \<Longrightarrow> sint (word_of_nat k :: 32 word) = int k"
  by (simp add: signed_of_nat signed_take_bit_int_eq_self)

lemma fold_WriteProfile_open:
  assumes "is_open (m_OutputStream w) = Some p" and "\<not> failed (m_OutputStream w)"
    and "disk w p = Some c" and "m_ProfileCount w = word_of_nat k"
    and "k + length rs < 2 ^ 31"
  shows "disk (fold WriteProfile rs w) p = Some (c @ records_from k rs)
       \<and> m_ProfileCount (fold WriteProfile rs w) = word_of_nat (k + length rs)
       \<and> m_OutputStream (fold WriteProfile rs w) = m_OutputStream w
       \<and> (\<forall>q. q \<noteq> p \<longrightarrow> disk (fold WriteProfile rs w) q = disk w q)"
  using assms
proof (induction rs arbitrary: w c k)
  case Nil
  then show ?case by simp
next
  case (Cons r rs)
  let ?sep = "if 0 < k then '','' else []"
  let ?w1 = "WriteProfile r w"
  have k: "sint (m_ProfileCount w) = int k"
    using Cons.prems by (simp add: sint_count)
  have w1: "?w1 = w\<lparr>m_ProfileCount := m_ProfileCount w + 1,
                     disk := (disk w)(p \<mapsto> c @ ?sep @ serialize r),
                     cout := cout w @ ''Profile written for: '' @ replace (CHR 0x22) (CHR 0x27) (Name r) @ endl\<rparr>"
    using WriteProfile_open [OF Cons.prems(1,2,3), of r] by (simp add: k)
  have ih: "disk (fold WriteProfile rs ?w1) p = Some ((c @ ?sep @ serialize r) @ records_from (Suc k) rs)
       \<and> m_ProfileCount (fold WriteProfile rs ?w1) = word_of_nat (Suc k + length rs)
       \<and> m_OutputStream (fold WriteProfile rs ?w1) = m_OutputStream ?w1
       \<and> (\<forall>q. q \<noteq> p \<longrightarrow> disk (fold WriteProfile rs ?w1) q = disk ?w1 q)"
    using Cons.prems by (intro Cons.IH) (simp_all add: w1)
  then show ?case
    by (simp add: w1)
qed

lemma joined_Cons: "ys \<noteq> [] \<Longrightarrow> joined (x # ys) = x @ '','' @ joined ys"
  by (cases ys) simp_all

lemma records_from_Suc:
  "records_from (Suc k) rs = (if rs = [] then [] else '','' @ joined (map serialize rs))"
  by (induction rs arbitrary: k) (simp_all add: joined_Cons)

lemma records_from_0: "records_from 0 rs = joined (map serialize rs)"
  by (cases rs) (simp_all add: records_from_Suc joined_Cons)

lemma length_joined:
  "length (joined xs) = sum_list (map length xs) + (length xs - 1)"
  by (induction xs rule: joined.induct) simp_all

lemma joined_take_Suc:
  "k < length xs \<Longrightarrow>
   joined (take (Suc k) xs) = joined (take k xs) @ (if k = 0 then [] else '','') @ xs ! k"
proof (induction xs arbitrary: k rule: joined.induct)
  case 1
  then show ?case by simp
next
  case (2 x)
  then show ?case by simp
next
  case (3 x y ys)
  show ?case
  proof (cases k)
    case 0
    then show ?thesis by simp
  next
    case (Suc j)
    with 3 show ?thesis by (cases j) simp_all
  qed
qed

text \<open>
  Claim C4. On an open stream with no error, starting with the counter at 0, \<open>N\<close>
  calls of \<^verbatim>\<open>WriteProfile\<close> append the \<open>N\<close> records with one comma between neighbours:
  the bytes appended are the records' bytes and \<open>N - 1\<close> more (none when \<open>N = 0\<close>),
  and call number \<open>k\<close> (from 0) appends a comma before its record exactly when
  \<open>k \<noteq> 0\<close>. \<open>N\<close> stays below \<open>2 ^ 31\<close>, where incrementing the \<^verbatim>\<open>int\<close> counter is
  defined.
\<close>

theorem WriteProfile_separators:
  assumes "is_open (m_OutputStream w) = Some p" and "\<not> failed (m_OutputStream w)"
    and "disk w p = Some c" and "m_ProfileCount w = 0"
    and "length rs < 2 ^ 31"
  shows "disk (fold WriteProfile rs w) p = Some (c @ joined (map serialize rs))
       \<and> length (joined (map serialize rs)) = sum_list (map (length \<circ> serialize) rs) + (length rs - 1)
       \<and> (\<forall>k < length rs.
            disk (fold WriteProfile (take (Suc k) rs) w) p
            = Some (c @ joined (map serialize (take k rs))
                      @ (if k = 0 then [] else '','') @ serialize (rs ! k)))"
proof -
  have run: "disk (fold WriteProfile xs w) p = Some (c @ joined (map serialize xs))"
    if "length xs < 2 ^ 31" for xs
    using fold_WriteProfile_open [of w p c 0 xs] assms(1-4) that
    by (simp add: records_from_0)
  have step: "joined (map serialize (take (Suc k) rs))
              = joined (map serialize (take k rs)) @ (if k = 0 then [] else '','') @ serialize (rs ! k)"
    if "k < length rs" for k
    using that joined_take_Suc [of k "map serialize rs"]
    by (simp add: take_map)
  have len: "length (joined (map serialize rs)) = sum_list (map (length \<circ> serialize) rs) + (length rs - 1)"
    by (simp add: length_joined comp_def)
  have "disk (fold WriteProfile (take (Suc k) rs) w) p
            = Some (c @ joined (map serialize (take k rs))
                      @ (if k = 0 then [] else '','') @ serialize (rs ! k))"
    if "k < length rs" for k
  proof -
    have "length (take (Suc k) rs) < 2 ^ 31"
      using assms(5) by simp
    then show ?thesis
      using step [OF that] by (simp only: run)
  qed
  with run [OF assms(5)] len show ?thesis
    by blast
qed

theorem WriteProfile_separators_witness:
  \<open>disk (fold WriteProfile
           [\<lparr>Name = ''f1'', Start = 100, End = 150, ThreadID = 7\<rparr>,
            \<lparr>Name = ''f2'', Start = 150, End = 210, ThreadID = 7\<rparr>]
           (BeginSession ''P'' ''r.json'' fresh)) ''r.json''
   = Some ''{"otherData": {},"traceEvents":[{"cat":"function","dur":50,"name":"f1","ph":"X","pid":0,"tid":7,"ts":100},{"cat":"function","dur":60,"name":"f2","ph":"X","pid":0,"tid":7,"ts":150}''\<close>
proof -
  let ?w = "BeginSession ''P'' ''r.json'' fresh"
  let ?rs = "[\<lparr>Name = ''f1'', Start = 100, End = 150, ThreadID = 7\<rparr>,
              \<lparr>Name = ''f2'', Start = 150, End = 210, ThreadID = 7\<rparr>]"
  have 1: "is_open (m_OutputStream ?w) = Some ''r.json''" by code_simp
  have 2: "\<not> failed (m_OutputStream ?w)" by code_simp
  have 3: "disk ?w ''r.json'' = Some header" by code_simp
  have 4: "m_ProfileCount ?w = 0" by code_simp
  have 5: "length ?rs < 2 ^ 31" by simp
  from WriteProfile_separators [OF 1 2 3 4 5]
  have "disk (fold WriteProfile ?rs ?w) ''r.json'' = Some (header @ joined (map serialize ?rs))"
    by (rule conjunct1)
  also have \<open>header @ joined (map serialize ?rs) = ''{"otherData": {},"traceEvents":[{"cat":"function","dur":50,"name":"f1","ph":"X","pid":0,"tid":7,"ts":100},{"cat":"function","dur":60,"name":"f2","ph":"X","pid":0,"tid":7,"ts":150}''\<close>
    by code_simp
  finally show ?thesis .
qed

subsection \<open>The session name\<close>

lemma same_output_refl [simp]: "same_output w w"
  by (simp add: same_output_def)

lemma same_output_put: "same_output w w' \<Longrightarrow> same_output (put b w) (put b w')"
  by (simp add: same_output_def put_def split: option.split)

lemma same_output_fold_put: "same_output w w' \<Longrightarrow> same_output (fold put bs w) (fold put bs w')"
  by (induction bs arbitrary: w w') (simp_all add: same_output_put)

lemma same_output_cout_put: "same_output w w' \<Longrightarrow> same_output (cout_put a w) (cout_put b w')"
  by (simp add: same_output_def)

lemma same_output_BeginSession:
  "same_output w w' \<Longrightarrow> same_output (BeginSession n p w) (BeginSession n' p w')"
proof -
  assume s: "same_output w w'"
  then have "same_output (ofstream_open p w) (ofstream_open p w')"
    by (simp add: same_output_def ofstream_open_def)
  then have "same_output (WriteHeader (ofstream_open p w)) (WriteHeader (ofstream_open p w'))"
    unfolding WriteHeader_def by (rule same_output_put)
  then show ?thesis
    by (simp add: BeginSession_def Let_def same_output_def)
qed

lemma same_output_EndSession:
  "same_output w w' \<Longrightarrow> same_output (EndSession w) (EndSession w')"
proof -
  assume s: "same_output w w'"
  then have "same_output (WriteFooter w) (WriteFooter w')"
    unfolding WriteFooter_def by (rule same_output_put)
  then have "same_output (ofstream_close (WriteFooter w)) (ofstream_close (WriteFooter w'))"
    by (simp add: same_output_def ofstream_close_def split: option.split)
  then show ?thesis
    by (simp add: EndSession_def Let_def same_output_def)
qed

lemma same_output_WriteProfile:
  "same_output w w' \<Longrightarrow> same_output (WriteProfile r w) (WriteProfile r w')"
proof -
  assume s: "same_output w w'"
  let ?w1 = "w\<lparr>m_ProfileCount := m_ProfileCount w + 1\<rparr>"
  let ?w1' = "w'\<lparr>m_ProfileCount := m_ProfileCount w' + 1\<rparr>"
  let ?w2 = "if 0 < sint (m_ProfileCount w) then put '','' ?w1 else ?w1"
  let ?w2' = "if 0 < sint (m_ProfileCount w') then put '','' ?w1' else ?w1'"
  from s have 1: "same_output ?w1 ?w1'"
    by (simp add: same_output_def)
  from s have c: "m_ProfileCount w = m_ProfileCount w'"
    by (simp add: same_output_def)
  have 2: "same_output ?w2 ?w2'"
    using same_output_put [OF 1] 1 by (simp add: c)
  have "same_output (fold put bs ?w2) (fold put bs ?w2')" for bs
    using 2 by (rule same_output_fold_put)
  then show ?thesis
    unfolding WriteProfile_def Let_def by (intro same_output_cout_put)
qed

lemma same_output_exec:
  assumes "same_output w w'" and "same_but_session_name c c'"
  shows "same_output (fst (exec c (w, ts))) (fst (exec c' (w', ts)))
       \<and> snd (exec c (w, ts)) = snd (exec c' (w', ts))"
proof (cases c)
  case (CallBeginSession n p)
  with assms(2) obtain n' where "c' = CallBeginSession n' p"
    by (cases c') simp_all
  with CallBeginSession assms(1) show ?thesis
    by (simp add: same_output_BeginSession)
next
  case CallEndSession
  with assms(2) have "c' = CallEndSession" by simp
  with CallEndSession assms(1) show ?thesis
    by (simp add: same_output_EndSession)
next
  case (CallWriteProfile r)
  with assms(2) have "c' = CallWriteProfile r" by simp
  with CallWriteProfile assms(1) show ?thesis
    by (simp add: same_output_WriteProfile)
next
  case CallWriteHeader
  with assms(2) have "c' = CallWriteHeader" by simp
  with CallWriteHeader assms(1) show ?thesis
    by (simp add: WriteHeader_def same_output_put)
next
  case CallWriteFooter
  with assms(2) have "c' = CallWriteFooter" by simp
  with CallWriteFooter assms(1) show ?thesis
    by (simp add: WriteFooter_def same_output_put)
next
  case (New i name now)
  with assms(2) have "c' = New i name now" by simp
  with New assms(1) show ?thesis
    by (simp add: InstrumentationTimer_def same_output_cout_put)
next
  case (CallStop i now tid)
  with assms(2) have "c' = CallStop i now tid" by simp
  with CallStop assms(1) show ?thesis
    by (simp add: Stop_def Let_def same_output_cout_put same_output_WriteProfile split: option.split)
next
  case (Delete i now tid)
  with assms(2) have "c' = Delete i now tid" by simp
  with Delete assms(1) show ?thesis
    by (simp add: destroy_def Stop_def Let_def same_output_cout_put same_output_WriteProfile
        split: option.split)
qed

lemma same_output_run:
  assumes "list_all2 same_but_session_name cs cs'" and "same_output w w'"
  shows "same_output (fst (run cs (w, ts))) (fst (run cs' (w', ts)))"
  using assms
proof (induction cs cs' arbitrary: w w' ts rule: list_all2_induct)
  case Nil
  then show ?case by (simp add: run_def)
next
  case (Cons c cs c' cs')
  obtain v us where e: "exec c (w, ts) = (v, us)"
    by (cases "exec c (w, ts)")
  obtain v' us' where e': "exec c' (w', ts) = (v', us')"
    by (cases "exec c' (w', ts)")
  from same_output_exec [OF Cons.prems Cons.hyps(1), of ts] e e'
  have "same_output v v'" and "us' = us"
    by simp_all
  with Cons.IH [of v v' us] show ?case
    by (simp add: run_def e e')
qed

text \<open>
  Claim C8. Two runs that differ only in the session names passed to
  \<^verbatim>\<open>BeginSession\<close> leave the same files with the same contents, from any starting
  world and set of live timers: the name is stored in the session object and printed on
  the console, and read by nothing that writes to the stream.
\<close>

theorem session_name_not_written:
  assumes "list_all2 same_but_session_name cs cs'"
  shows "disk (fst (run cs (w, ts))) = disk (fst (run cs' (w, ts)))
       \<and> m_CurrentSession (BeginSession name filepath w) = Some \<lparr>InstrumentationSession.Name = name\<rparr>"
  using same_output_run [OF assms same_output_refl, of w ts]
  by (simp add: same_output_def BeginSession_def Let_def)

theorem session_name_not_written_witness:
  \<open>list_all2 same_but_session_name
     [CallBeginSession ''Profile'' ''results.json'', New 0 ''main'' 100, New 1 ''function1'' 110,
      Delete 1 150 7, Delete 0 210 7, CallEndSession]
     [CallBeginSession ''Other'' ''results.json'', New 0 ''main'' 100, New 1 ''function1'' 110,
      Delete 1 150 7, Delete 0 210 7, CallEndSession]
   \<and> disk (fst (run [CallBeginSession ''Other'' ''results.json'', New 0 ''main'' 100,
                       New 1 ''function1'' 110, Delete 1 150 7, Delete 0 210 7, CallEndSession]
                      (fresh, Map.empty))) ''results.json''
     = Some ''{"otherData": {},"traceEvents":[{"cat":"function","dur":40,"name":"function1","ph":"X","pid":0,"tid":7,"ts":110},{"cat":"function","dur":110,"name":"main","ph":"X","pid":0,"tid":7,"ts":100}]}''\<close>
proof -
  let ?cs = "[CallBeginSession ''Profile'' ''results.json'', New 0 ''main'' 100, New 1 ''function1'' 110,
      Delete 1 150 7, Delete 0 210 7, CallEndSession]"
  let ?cs' = "[CallBeginSession ''Other'' ''results.json'', New 0 ''main'' 100, New 1 ''function1'' 110,
      Delete 1 150 7, Delete 0 210 7, CallEndSession]"
  have h: "list_all2 same_but_session_name ?cs ?cs'"
    by simp
  have v: \<open>disk (fst (run ?cs (fresh, Map.empty))) ''results.json''
     = Some ''{"otherData": {},"traceEvents":[{"cat":"function","dur":40,"name":"function1","ph":"X","pid":0,"tid":7,"ts":110},{"cat":"function","dur":110,"name":"main","ph":"X","pid":0,"tid":7,"ts":100}]}''\<close>
    by code_simp
  from session_name_not_written [OF h, of fresh Map.empty]
  have "disk (fst (run ?cs (fresh, Map.empty))) = disk (fst (run ?cs' (fresh, Map.empty)))"
    by (rule conjunct1)
  with h v show ?thesis
    by simp
qed

subsection \<open>The parser and its fuel\<close>

lemma fuel_enoughI:
  assumes "length r < length s"
    and "\<And>m. n \<le> m \<or> length s - length r \<le> Suc m \<Longrightarrow> f (Suc m) s = Some (x, r)"
  shows "fuel_enough (Suc n) f s (x, r)"
  unfolding fuel_enough_def
proof (intro conjI allI impI)
  show "length (snd (x, r)) < length s"
    using assms(1) by simp
next
  fix m
  assume m: "Suc n \<le> m \<or> length s - length (snd (x, r)) \<le> m"
  with assms(1) obtain k where k: "m = Suc k"
    by (cases m) auto
  with m have "n \<le> k \<or> length s - length r \<le> Suc k"
    by auto
  from assms(2) [OF this] k show "f m s = Some (x, r)"
    by simp
qed

lemma fuel_enough_len: "fuel_enough n f s (x, r) \<Longrightarrow> length r < length s"
  by (simp add: fuel_enough_def)

lemma fuel_enoughD:
  "fuel_enough n f s (x, r) \<Longrightarrow> n \<le> m \<or> length s - length r \<le> m \<Longrightarrow> f m s = Some (x, r)"
  unfolding fuel_enough_def by auto

lemma length_skip_ws: "length (skip_ws s) \<le> length s"
  by (simp add: skip_ws_def length_dropWhile_le)

lemma skip_ws_Cons_len: "skip_ws s = c # cs \<Longrightarrow> length cs < length s"
  using length_skip_ws [of s] by simp

lemma parse_chars_shorter: "parse_chars s = Some (x, r) \<Longrightarrow> length r < length s"
proof (induction "length s" arbitrary: s x r rule: less_induct)
  case less
  have IH: "length r' < length s'" if "parse_chars s' = Some (x', r')" and "length s' < length s"
    for s' x' r'
    using less.hyps [OF that(2) that(1)] .
  show ?case
  proof (cases s)
    case Nil
    with less.prems show ?thesis by simp
  next
    case (Cons c cs)
    with less.prems show ?thesis
      by (auto split: if_splits list.splits option.splits dest!: IH)
  qed
qed

lemma parse_int_part_shorter: "parse_int_part t = Some (n, r) \<Longrightarrow> length r < length t"
proof (cases t)
  case Nil
  assume "parse_int_part t = Some (n, r)"
  with Nil show ?thesis by (simp add: parse_int_part_def)
next
  case (Cons c cs)
  assume a: "parse_int_part t = Some (n, r)"
  have "length (dropWhile is_digit cs) \<le> length cs"
    by (rule length_dropWhile_le)
  with a Cons show ?thesis
    by (auto simp: parse_int_part_def split: if_splits)
qed

lemma parse_frac_shorter: "parse_frac t = Some (fd, r) \<Longrightarrow> length r \<le> length t"
proof (cases t)
  case Nil
  assume "parse_frac t = Some (fd, r)"
  with Nil show ?thesis by (simp add: parse_frac_def)
next
  case (Cons c cs)
  assume a: "parse_frac t = Some (fd, r)"
  have "length (dropWhile is_digit cs) \<le> length cs"
    by (rule length_dropWhile_le)
  with a Cons show ?thesis
    by (auto simp: parse_frac_def split: if_splits)
qed

lemma parse_exp_shorter: "parse_exp t = Some (e, r) \<Longrightarrow> length r \<le> length t"
proof (cases t)
  case Nil
  assume "parse_exp t = Some (e, r)"
  with Nil show ?thesis by (simp add: parse_exp_def)
next
  case (Cons c cs)
  assume a: "parse_exp t = Some (e, r)"
  let ?ds = "if cs \<noteq> [] \<and> (hd cs = CHR ''-'' \<or> hd cs = CHR ''+'') then tl cs else cs"
  have "length (dropWhile is_digit ?ds) \<le> length ?ds"
    by (rule length_dropWhile_le)
  moreover have "length ?ds \<le> length cs"
    by simp
  ultimately have "length (dropWhile is_digit ?ds) \<le> length cs"
    by (rule order_trans)
  with a Cons show ?thesis
    by (auto simp: parse_exp_def Let_def split: if_splits)
qed

lemma parse_number_shorter: "parse_number s = Some (v, r) \<Longrightarrow> length r < length s"
proof -
  assume a: "parse_number s = Some (v, r)"
  let ?s1 = "if s \<noteq> [] \<and> hd s = CHR ''-'' then tl s else s"
  from a obtain n s2 where i: "parse_int_part ?s1 = Some (n, s2)"
    by (auto simp: parse_number_def Let_def split: option.splits)
  from a i obtain fd s3 where f: "parse_frac s2 = Some (fd, s3)"
    by (auto simp: parse_number_def Let_def split: option.splits)
  from a i f obtain e where e: "parse_exp s3 = Some (e, r)"
    by (auto simp: parse_number_def Let_def split: option.splits)
  have "length ?s1 \<le> length s"
    by simp
  with parse_int_part_shorter [OF i] parse_frac_shorter [OF f] parse_exp_shorter [OF e]
  show ?thesis
    by linarith
qed

lemma parse_literal_shorter: "parse_literal s = Some (v, r) \<Longrightarrow> length r < length s"
proof -
  assume a: "parse_literal s = Some (v, r)"
  have t: "length (drop k s) < length s" if "take k s = t" and "0 < k" and "length t = k" for k t
  proof -
    from that have "k \<le> length s"
      by (metis length_take min.cobounded1 min_def nat_le_linear take_all)
    with that(2) show ?thesis
      by simp
  qed
  from a show ?thesis
    by (auto simp: parse_literal_def split: if_splits intro!: t)
qed

lemma value_step:
  assumes IHe: "\<And>s a. parse_elements n s = Some a \<Longrightarrow> fuel_enough n parse_elements s a"
    and IHm: "\<And>s a. parse_members n s = Some a \<Longrightarrow> fuel_enough n parse_members s a"
    and a: "parse_value (Suc n) s = Some (v, r)"
  shows "fuel_enough (Suc n) parse_value s (v, r)"
proof -
  from a obtain c cs where sk: "skip_ws s = c # cs"
    by (cases "skip_ws s") simp_all
  have l1: "length cs < length s"
    using sk by (rule skip_ws_Cons_len)
  consider (obj) "c = CHR ''{''" | (arr) "c \<noteq> CHR ''{''" "c = CHR ''[''"
    | (other) "c \<noteq> CHR ''{''" "c \<noteq> CHR ''[''"
    by blast
  then show ?thesis
  proof cases
    case obj
    from a sk obj obtain d ds where sk2: "skip_ws cs = d # ds"
      by (cases "skip_ws cs") simp_all
    have l2: "length ds < length cs"
      using sk2 by (rule skip_ws_Cons_len)
    show ?thesis
    proof (cases "d = CHR ''}''")
      case True
      with a sk obj sk2 have vr: "v = JObject []" "r = ds"
        by simp_all
      show ?thesis
        unfolding vr
      proof (rule fuel_enoughI)
        show "length ds < length s"
          using l1 l2 by simp
        fix m
        show "parse_value (Suc m) s = Some (JObject [], ds)"
          using sk obj sk2 True by simp
      qed
    next
      case False
      with a sk obj sk2 obtain ms where pm: "parse_members n cs = Some (ms, r)" and v: "v = JObject ms"
        by auto
      note e = IHm [OF pm]
      show ?thesis
        unfolding v
      proof (rule fuel_enoughI)
        show "length r < length s"
          using fuel_enough_len [OF e] l1 by simp
        fix m
        assume "n \<le> m \<or> length s - length r \<le> Suc m"
        with l1 have "n \<le> m \<or> length cs - length r \<le> m"
          by auto
        from fuel_enoughD [OF e this] show "parse_value (Suc m) s = Some (JObject ms, r)"
          using sk obj sk2 False by simp
      qed
    qed
  next
    case arr
    from a sk arr obtain d ds where sk2: "skip_ws cs = d # ds"
      by (cases "skip_ws cs") simp_all
    have l2: "length ds < length cs"
      using sk2 by (rule skip_ws_Cons_len)
    show ?thesis
    proof (cases "d = CHR '']''")
      case True
      with a sk arr sk2 have vr: "v = JArray []" "r = ds"
        by simp_all
      show ?thesis
        unfolding vr
      proof (rule fuel_enoughI)
        show "length ds < length s"
          using l1 l2 by simp
        fix m
        show "parse_value (Suc m) s = Some (JArray [], ds)"
          using sk arr sk2 True by simp
      qed
    next
      case False
      with a sk arr sk2 obtain vs where pe: "parse_elements n cs = Some (vs, r)" and v: "v = JArray vs"
        by auto
      note e = IHe [OF pe]
      show ?thesis
        unfolding v
      proof (rule fuel_enoughI)
        show "length r < length s"
          using fuel_enough_len [OF e] l1 by simp
        fix m
        assume "n \<le> m \<or> length s - length r \<le> Suc m"
        with l1 have "n \<le> m \<or> length cs - length r \<le> m"
          by auto
        from fuel_enoughD [OF e this] show "parse_value (Suc m) s = Some (JArray vs, r)"
          using sk arr sk2 False by simp
      qed
    qed
  next
    case other
    let ?scalar = "if c = CHR 0x22 then map_option (apfst JString) (parse_chars cs)
                   else if c = CHR ''-'' \<or> is_digit c then parse_number (c # cs)
                   else parse_literal (c # cs)"
    from a sk other have sc: "?scalar = Some (v, r)"
      by simp
    have "length r < length (c # cs)"
    proof (cases "c = CHR 0x22")
      case True
      with sc obtain x where "parse_chars cs = Some (x, r)"
        by auto
      from parse_chars_shorter [OF this] show ?thesis
        by simp
    next
      case False
      with sc show ?thesis
        by (auto split: if_splits dest: parse_number_shorter parse_literal_shorter)
    qed
    moreover have "length (c # cs) \<le> length s"
      using length_skip_ws [of s] sk by simp
    ultimately have l: "length r < length s"
      by simp
    show ?thesis
    proof (rule fuel_enoughI [OF l])
      fix m
      show "parse_value (Suc m) s = Some (v, r)"
        using sk other sc by simp
    qed
  qed
qed

lemma elements_step:
  assumes IHv: "\<And>s a. parse_value n s = Some a \<Longrightarrow> fuel_enough n parse_value s a"
    and IHe: "\<And>s a. parse_elements n s = Some a \<Longrightarrow> fuel_enough n parse_elements s a"
    and a: "parse_elements (Suc n) s = Some (vs, r)"
  shows "fuel_enough (Suc n) parse_elements s (vs, r)"
proof -
  from a obtain v r1 where pv: "parse_value n s = Some (v, r1)"
    by (cases "parse_value n s") auto
  note e1 = IHv [OF pv]
  from a pv obtain c cs where sk: "skip_ws r1 = c # cs"
    by (cases "skip_ws r1") simp_all
  have l1: "length cs < length r1"
    using sk by (rule skip_ws_Cons_len)
  have l0: "length r1 < length s"
    using e1 by (rule fuel_enough_len)
  show ?thesis
  proof (cases "c = CHR '',''")
    case True
    with a pv sk obtain vs' where pe: "parse_elements n cs = Some (vs', r)" and vs: "vs = v # vs'"
      by auto
    note e2 = IHe [OF pe]
    have l2: "length r < length cs"
      using e2 by (rule fuel_enough_len)
    show ?thesis
      unfolding vs
    proof (rule fuel_enoughI)
      show "length r < length s"
        using l0 l1 l2 by simp
      fix m
      assume m: "n \<le> m \<or> length s - length r \<le> Suc m"
      with l0 l1 l2 have "n \<le> m \<or> length s - length r1 \<le> m" and "n \<le> m \<or> length cs - length r \<le> m"
        by auto
      with e1 e2 have "parse_value m s = Some (v, r1)" and "parse_elements m cs = Some (vs', r)"
        by (simp_all add: fuel_enoughD)
      then show "parse_elements (Suc m) s = Some (v # vs', r)"
        using sk True by simp
    qed
  next
    case False
    with a pv sk have c: "c = CHR '']''" and vr: "vs = [v]" "r = cs"
      by (simp_all split: if_splits)
    show ?thesis
      unfolding vr
    proof (rule fuel_enoughI)
      show "length cs < length s"
        using l0 l1 by simp
      fix m
      assume m: "n \<le> m \<or> length s - length cs \<le> Suc m"
      with l0 l1 have "n \<le> m \<or> length s - length r1 \<le> m"
        by auto
      with e1 have "parse_value m s = Some (v, r1)"
        by (simp add: fuel_enoughD)
      then show "parse_elements (Suc m) s = Some ([v], cs)"
        using sk c by simp
    qed
  qed
qed

lemma members_step:
  assumes IHv: "\<And>s a. parse_value n s = Some a \<Longrightarrow> fuel_enough n parse_value s a"
    and IHm: "\<And>s a. parse_members n s = Some a \<Longrightarrow> fuel_enough n parse_members s a"
    and a: "parse_members (Suc n) s = Some (ms, r)"
  shows "fuel_enough (Suc n) parse_members s (ms, r)"
proof -
  from a obtain q ks where sk0: "skip_ws s = q # ks"
    by (cases "skip_ws s") simp_all
  from a sk0 have q: "q = CHR 0x22"
    by (simp split: if_splits)
  from a sk0 q obtain k r0 where pk: "parse_chars ks = Some (k, r0)"
    by (cases "parse_chars ks") auto
  from a sk0 q pk obtain c cs where sk1: "skip_ws r0 = c # cs"
    by (cases "skip_ws r0") simp_all
  from a sk0 q pk sk1 have c: "c = CHR '':''"
    by (simp split: if_splits)
  from a sk0 q pk sk1 c obtain v r1 where pv: "parse_value n cs = Some (v, r1)"
    by (cases "parse_value n cs") auto
  note e1 = IHv [OF pv]
  from a sk0 q pk sk1 c pv obtain d ds where sk2: "skip_ws r1 = d # ds"
    by (cases "skip_ws r1") simp_all
  have l0: "length ks < length s"
    using sk0 by (rule skip_ws_Cons_len)
  have l1: "length r0 < length ks"
    using pk by (rule parse_chars_shorter)
  have l2: "length cs < length r0"
    using sk1 by (rule skip_ws_Cons_len)
  have l3: "length r1 < length cs"
    using e1 by (rule fuel_enough_len)
  have l4: "length ds < length r1"
    using sk2 by (rule skip_ws_Cons_len)
  show ?thesis
  proof (cases "d = CHR '',''")
    case True
    with a sk0 q pk sk1 c pv sk2 obtain ms' where pm: "parse_members n ds = Some (ms', r)"
      and ms: "ms = (k, v) # ms'"
      by auto
    note e2 = IHm [OF pm]
    have l5: "length r < length ds"
      using e2 by (rule fuel_enough_len)
    show ?thesis
      unfolding ms
    proof (rule fuel_enoughI)
      show "length r < length s"
        using l0 l1 l2 l3 l4 l5 by simp
      fix m
      assume m: "n \<le> m \<or> length s - length r \<le> Suc m"
      with l0 l1 l2 l3 l4 l5 have "n \<le> m \<or> length cs - length r1 \<le> m" and "n \<le> m \<or> length ds - length r \<le> m"
        by auto
      with e1 e2 have "parse_value m cs = Some (v, r1)" and "parse_members m ds = Some (ms', r)"
        by (simp_all add: fuel_enoughD)
      then show "parse_members (Suc m) s = Some ((k, v) # ms', r)"
        using sk0 q pk sk1 c sk2 True by simp
    qed
  next
    case False
    with a sk0 q pk sk1 c pv sk2 have d: "d = CHR ''}''" and mr: "ms = [(k, v)]" "r = ds"
      by (simp_all split: if_splits)
    show ?thesis
      unfolding mr
    proof (rule fuel_enoughI)
      show "length ds < length s"
        using l0 l1 l2 l3 l4 by simp
      fix m
      assume m: "n \<le> m \<or> length s - length ds \<le> Suc m"
      with l0 l1 l2 l3 l4 have "n \<le> m \<or> length cs - length r1 \<le> m"
        by auto
      with e1 have "parse_value m cs = Some (v, r1)"
        by (simp add: fuel_enoughD)
      then show "parse_members (Suc m) s = Some ([(k, v)], ds)"
        using sk0 q pk sk1 c sk2 d by simp
    qed
  qed
qed

lemma parse_fuel_enough:
  "(\<forall>s a. parse_value n s = Some a \<longrightarrow> fuel_enough n parse_value s a)
 \<and> (\<forall>s a. parse_elements n s = Some a \<longrightarrow> fuel_enough n parse_elements s a)
 \<and> (\<forall>s a. parse_members n s = Some a \<longrightarrow> fuel_enough n parse_members s a)"
proof (induction n)
  case 0
  then show ?case by simp
next
  case (Suc n)
  have "fuel_enough (Suc n) parse_value s a" if "parse_value (Suc n) s = Some a" for s a
    using Suc.IH that by (cases a) (blast intro: value_step)
  moreover have "fuel_enough (Suc n) parse_elements s a" if "parse_elements (Suc n) s = Some a" for s a
    using Suc.IH that by (cases a) (blast intro: elements_step)
  moreover have "fuel_enough (Suc n) parse_members s a" if "parse_members (Suc n) s = Some a" for s a
    using Suc.IH that by (cases a) (blast intro: members_step)
  ultimately show ?case
    by blast
qed

lemma parse_value_fuel_mono:
  assumes "parse_value n s = Some a" and "n \<le> m"
  shows "parse_value m s = Some a"
proof -
  from assms(1) parse_fuel_enough [of n] have "fuel_enough n parse_value s a"
    by blast
  then have "n \<le> m \<longrightarrow> parse_value m s = Some a"
    unfolding fuel_enough_def by blast
  with assms(2) show ?thesis
    by blast
qed

text \<open>The fuel of \<open>parse_json\<close> is enough: what parses with any fuel parses with
  it, so that \<open>parse_json s = None\<close> says that \<open>s\<close> is not a JSON text.\<close>

theorem parse_value_fuel:
  assumes "parse_value n s = Some a"
  shows "parse_value (Suc (length s)) s = Some a"
proof -
  from assms parse_fuel_enough [of n] have "fuel_enough n parse_value s a"
    by blast
  then have "length s - length (snd a) \<le> Suc (length s)
             \<longrightarrow> parse_value (Suc (length s)) s = Some a"
    unfolding fuel_enough_def by blast
  moreover have "length s - length (snd a) \<le> Suc (length s)"
    by simp
  ultimately show ?thesis
    by blast
qed

lemma parse_json_None:
  assumes "parse_json s = None"
  shows "\<not> (\<exists>n v r. parse_value n s = Some (v, r) \<and> skip_ws r = [])"
proof
  assume "\<exists>n v r. parse_value n s = Some (v, r) \<and> skip_ws r = []"
  then obtain n v r where p: "parse_value n s = Some (v, r)" and r: "skip_ws r = []"
    by blast
  from parse_value_fuel [OF p] r assms show False
    by (simp add: parse_json_def)
qed

subsection \<open>Parsing what the program prints\<close>

lemma is_digit_digit_char: "d < 10 \<Longrightarrow> is_digit (digit_char d)"
  by (simp add: is_digit_def digit_char_def)

lemma digit_val_digit_char: "d < 10 \<Longrightarrow> digit_val (digit_char d) = d"
  by (simp add: digit_val_def digit_char_def)

lemma of_char_digit_char: "d < 10 \<Longrightarrow> (of_char (digit_char d) :: nat) = 48 + d"
  by (simp add: digit_char_def)

lemma digit_char_0: "digit_char 0 = CHR ''0''"
  by code_simp

lemma digit_char_eq_0:
  assumes "d < 10"
  shows "(digit_char d = CHR ''0'') = (d = 0)"
proof
  assume "digit_char d = CHR ''0''"
  then have "(of_char (digit_char d) :: nat) = of_char (CHR ''0'')"
    by simp
  with of_char_digit_char [OF assms] show "d = 0"
    by simp
next
  assume "d = 0"
  then show "digit_char d = CHR ''0''"
    by (simp add: digit_char_0)
qed

lemma show_nat_digits: "list_all is_digit (show_nat n)"
proof (induction n rule: show_nat.induct)
  case (1 n)
  show ?case
  proof (cases "n < 10")
    case True
    then show ?thesis
      by (subst show_nat.simps) (simp add: is_digit_digit_char)
  next
    case False
    with 1 show ?thesis
      by (subst show_nat.simps) (simp add: is_digit_digit_char)
  qed
qed

lemma show_nat_not_Nil [simp]: "show_nat n \<noteq> []"
  by (subst show_nat.simps) simp

lemma nat_of_digits_snoc: "nat_of_digits (ds @ [c]) = 10 * nat_of_digits ds + digit_val c"
  by (simp add: nat_of_digits_def)

lemma nat_of_digits_show_nat: "nat_of_digits (show_nat n) = n"
proof (induction n rule: show_nat.induct)
  case (1 n)
  show ?case
  proof (cases "n < 10")
    case True
    then show ?thesis
      by (subst show_nat.simps) (simp add: nat_of_digits_def digit_val_digit_char)
  next
    case False
    with 1 have "nat_of_digits (show_nat (n div 10)) = n div 10"
      by simp
    with False show ?thesis
      by (subst show_nat.simps) (simp add: nat_of_digits_snoc digit_val_digit_char)
  qed
qed

lemma hd_show_nat: "hd (show_nat n) = CHR ''0'' \<Longrightarrow> n = 0"
proof (induction n rule: show_nat.induct)
  case (1 n)
  show ?case
  proof (cases "n < 10")
    case True
    with 1(2) show ?thesis
      by (subst (asm) show_nat.simps) (simp add: digit_char_eq_0)
  next
    case False
    with 1(2) have "hd (show_nat (n div 10)) = CHR ''0''"
      by (subst (asm) show_nat.simps) simp
    with 1(1) False have "n div 10 = 0"
      by simp
    with False show ?thesis
      by simp
  qed
qed

lemma show_nat_0: "show_nat 0 = ''0''"
  by code_simp

lemma takeWhile_digits:
  assumes "list_all is_digit ds" and "terminator rest"
  shows "takeWhile is_digit (ds @ rest) = ds" and "dropWhile is_digit (ds @ rest) = rest"
proof -
  from assms(2) have r: "takeWhile is_digit rest = []" "dropWhile is_digit rest = rest"
    by (cases rest; simp add: terminator_def)+
  from assms(1) have "\<forall>x\<in>set ds. is_digit x"
    by (simp add: list_all_iff)
  then show "takeWhile is_digit (ds @ rest) = ds" and "dropWhile is_digit (ds @ rest) = rest"
    by (simp_all add: takeWhile_append2 dropWhile_append2 r)
qed

lemma parse_int_part_show_nat:
  assumes "terminator rest"
  shows "parse_int_part (show_nat n @ rest) = Some (n, rest)"
proof -
  obtain c cs where s: "show_nat n = c # cs"
    using show_nat_not_Nil [of n] by (cases "show_nat n") auto
  have d: "list_all is_digit (c # cs)"
    using show_nat_digits [of n] s by simp
  show ?thesis
  proof (cases "c = CHR ''0''")
    case True
    with hd_show_nat [of n] s have "n = 0"
      by simp
    then show ?thesis
      by (simp add: show_nat_0 parse_int_part_def)
  next
    case False
    have "parse_int_part ((c # cs) @ rest)
          = Some (nat_of_digits (takeWhile is_digit ((c # cs) @ rest)), dropWhile is_digit ((c # cs) @ rest))"
      using False d by (simp add: parse_int_part_def)
    also have "\<dots> = Some (nat_of_digits (c # cs), rest)"
      using takeWhile_digits [OF d assms] by simp
    finally show ?thesis
      using nat_of_digits_show_nat [of n] by (simp add: s)
  qed
qed

lemma parse_frac_terminator: "terminator rest \<Longrightarrow> parse_frac rest = Some ([], rest)"
  by (cases rest) (simp_all add: parse_frac_def terminator_def)

lemma parse_exp_terminator: "terminator rest \<Longrightarrow> parse_exp rest = Some (0, rest)"
  by (cases rest) (simp_all add: parse_exp_def terminator_def)

lemma hd_show_nat_not_minus: "hd (show_nat n) \<noteq> CHR ''-''"
proof -
  obtain c cs where s: "show_nat n = c # cs"
    using show_nat_not_Nil [of n] by (cases "show_nat n") auto
  with show_nat_digits [of n] have "is_digit c"
    by simp
  then have "c \<noteq> CHR ''-''"
    by (auto simp: is_digit_def)
  with s show ?thesis by simp
qed

lemma parse_number_show_nat:
  assumes "terminator rest"
  shows "parse_number (show_nat n @ rest) = Some (JNumber (int n) 0, rest)"
  using hd_show_nat_not_minus [of n]
  by (simp add: parse_number_def parse_int_part_show_nat [OF assms]
      parse_frac_terminator [OF assms] parse_exp_terminator [OF assms] nat_of_digits_def)

lemma parse_number_show_int:
  assumes "terminator rest"
  shows "parse_number (show_int i @ rest) = Some (JNumber i 0, rest)"
proof (cases "i < 0")
  case True
  then show ?thesis
    by (simp add: show_int_def parse_number_def parse_int_part_show_nat [OF assms]
      parse_frac_terminator [OF assms] parse_exp_terminator [OF assms] nat_of_digits_def)
next
  case False
  then show ?thesis
    using parse_number_show_nat [OF assms, of "nat i"] by (simp add: show_int_def)
qed

lemma parse_chars_safe:
  "json_safe xs \<Longrightarrow> parse_chars (xs @ CHR 0x22 # rest) = Some (xs, rest)"
  by (induction xs) (simp_all add: json_safe_def)

lemma is_digit_not_ws: "is_digit c \<Longrightarrow> \<not> is_ws c"
  by (auto simp: is_digit_def is_ws_def)

lemma is_digit_not_special:
  "is_digit c \<Longrightarrow> c \<noteq> CHR ''{'' \<and> c \<noteq> CHR ''['' \<and> c \<noteq> CHR 0x22 \<and> c \<noteq> CHR ''-''"
  by (auto simp: is_digit_def)

lemma parse_value_show_nat:
  assumes "terminator rest"
  shows "parse_value (Suc n) (show_nat k @ rest) = Some (JNumber (int k) 0, rest)"
proof -
  obtain c cs where s: "show_nat k = c # cs"
    using show_nat_not_Nil [of k] by (cases "show_nat k") auto
  with show_nat_digits [of k] have d: "is_digit c"
    by simp
  have "parse_value (Suc n) ((c # cs) @ rest) = parse_number ((c # cs) @ rest)"
    using d is_digit_not_ws [OF d] is_digit_not_special [OF d] by (simp add: skip_ws_def)
  then show ?thesis
    using parse_number_show_nat [OF assms, of k] by (simp add: s)
qed

lemma parse_value_show_int:
  assumes "terminator rest"
  shows "parse_value (Suc n) (show_int i @ rest) = Some (JNumber i 0, rest)"
proof (cases "i < 0")
  case True
  then have s: "show_int i = CHR ''-'' # show_nat (nat (- i))"
    by (simp add: show_int_def)
  have "parse_value (Suc n) ((CHR ''-'' # show_nat (nat (- i))) @ rest)
        = parse_number ((CHR ''-'' # show_nat (nat (- i))) @ rest)"
    by (simp add: skip_ws_def is_ws_def)
  then show ?thesis
    using parse_number_show_int [OF assms, of i] by (simp add: s)
next
  case False
  then show ?thesis
    using parse_value_show_nat [OF assms, of n "nat i"] by (simp add: show_int_def)
qed

lemma parse_value_string:
  "json_safe xs \<Longrightarrow> parse_value (Suc n) (CHR 0x22 # xs @ CHR 0x22 # rest) = Some (JString xs, rest)"
  by (simp add: skip_ws_def is_ws_def parse_chars_safe)

lemma member_last:
  assumes "json_safe k" and "parse_value n body = Some (v, CHR ''}'' # rest)"
  shows "parse_members (Suc n) (CHR 0x22 # k @ CHR 0x22 # CHR '':'' # body) = Some ([(k, v)], rest)"
  using assms by (simp add: skip_ws_def is_ws_def parse_chars_safe)

lemma member_more:
  assumes "json_safe k" and "parse_value n body = Some (v, CHR '','' # nxt)"
    and "parse_members n nxt = Some (ms, rest)"
  shows "parse_members (Suc n) (CHR 0x22 # k @ CHR 0x22 # CHR '':'' # body) = Some ((k, v) # ms, rest)"
  using assms by (simp add: skip_ws_def is_ws_def parse_chars_safe)

lemma terminator_comma [simp]: "terminator (CHR '','' # s)"
  by (simp add: terminator_def is_digit_def)

lemma terminator_brace [simp]: "terminator (CHR ''}'' # s)"
  by (simp add: terminator_def is_digit_def)

lemma json_safe_keys [simp]:
  "json_safe ''cat''" "json_safe ''dur''" "json_safe ''name''" "json_safe ''ph''"
  "json_safe ''pid''" "json_safe ''tid''" "json_safe ''ts''" "json_safe ''function''" "json_safe ''X''"
  "json_safe ''otherData''" "json_safe ''traceEvents''"
  by (simp_all add: json_safe_def)

lemma serialize_eq:
  \<open>serialize r =
     ''{"cat":"function","dur":'' @ show_int (sint (End r - Start r))
     @ '',"name":"'' @ replace (CHR 0x22) (CHR 0x27) (Name r)
     @ ''","ph":"X","pid":0,"tid":'' @ show_nat (unat (ThreadID r))
     @ '',"ts":'' @ show_int (sint (Start r)) @ ''}''\<close>
  by (simp add: serialize_def record_chunks_def)

lemma parse_members_serialize:
  assumes "json_safe (replace (CHR 0x22) (CHR 0x27) (Name r))"
  shows \<open>parse_members (Suc (Suc (Suc (Suc (Suc (Suc (Suc (Suc n))))))))
           (''"cat":"function","dur":'' @ show_int (sint (End r - Start r))
            @ '',"name":"'' @ replace (CHR 0x22) (CHR 0x27) (Name r)
            @ ''","ph":"X","pid":0,"tid":'' @ show_nat (unat (ThreadID r))
            @ '',"ts":'' @ show_int (sint (Start r)) @ ''}'' @ rest)
         = Some ([(''cat'', JString ''function''),
                  (''dur'', JNumber (sint (End r - Start r)) 0),
                  (''name'', JString (replace (CHR 0x22) (CHR 0x27) (Name r))),
                  (''ph'', JString ''X''),
                  (''pid'', JNumber 0 0),
                  (''tid'', JNumber (int (unat (ThreadID r))) 0),
                  (''ts'', JNumber (sint (Start r)) 0)], rest)\<close>
proof -
  let ?name = "replace (CHR 0x22) (CHR 0x27) (Name r)"
  let ?b7 = "show_int (sint (Start r)) @ CHR ''}'' # rest"
  let ?m7 = "CHR 0x22 # ''ts'' @ CHR 0x22 # CHR '':'' # ?b7"
  let ?b6 = "show_nat (unat (ThreadID r)) @ CHR '','' # ?m7"
  let ?m6 = "CHR 0x22 # ''tid'' @ CHR 0x22 # CHR '':'' # ?b6"
  let ?b5 = "show_nat 0 @ CHR '','' # ?m6"
  let ?m5 = "CHR 0x22 # ''pid'' @ CHR 0x22 # CHR '':'' # ?b5"
  let ?b4 = "CHR 0x22 # ''X'' @ CHR 0x22 # CHR '','' # ?m5"
  let ?m4 = "CHR 0x22 # ''ph'' @ CHR 0x22 # CHR '':'' # ?b4"
  let ?b3 = "CHR 0x22 # ?name @ CHR 0x22 # CHR '','' # ?m4"
  let ?m3 = "CHR 0x22 # ''name'' @ CHR 0x22 # CHR '':'' # ?b3"
  let ?b2 = "show_int (sint (End r - Start r)) @ CHR '','' # ?m3"
  let ?m2 = "CHR 0x22 # ''dur'' @ CHR 0x22 # CHR '':'' # ?b2"
  let ?b1 = "CHR 0x22 # ''function'' @ CHR 0x22 # CHR '','' # ?m2"
  let ?m1 = "CHR 0x22 # ''cat'' @ CHR 0x22 # CHR '':'' # ?b1"
  have v7: "parse_value (Suc n) ?b7 = Some (JNumber (sint (Start r)) 0, CHR ''}'' # rest)"
    by (rule parse_value_show_int) simp
  have p7: "parse_members (Suc (Suc n)) ?m7 = Some ([(''ts'', JNumber (sint (Start r)) 0)], rest)"
    by (rule member_last [OF _ v7]) simp
  have v6: "parse_value (Suc (Suc n)) ?b6 = Some (JNumber (int (unat (ThreadID r))) 0, CHR '','' # ?m7)"
    by (rule parse_value_show_nat) simp
  note p6 = member_more [OF json_safe_keys(6) v6 p7]
  have v5: "parse_value (Suc (Suc (Suc n))) ?b5 = Some (JNumber (int 0) 0, CHR '','' # ?m6)"
    by (rule parse_value_show_nat) simp
  note p5 = member_more [OF json_safe_keys(5) v5 p6]
  have v4: "parse_value (Suc (Suc (Suc (Suc n)))) ?b4 = Some (JString ''X'', CHR '','' # ?m5)"
    by (rule parse_value_string) simp
  note p4 = member_more [OF json_safe_keys(4) v4 p5]
  have v3: "parse_value (Suc (Suc (Suc (Suc (Suc n))))) ?b3 = Some (JString ?name, CHR '','' # ?m4)"
    by (rule parse_value_string) (rule assms)
  note p3 = member_more [OF json_safe_keys(3) v3 p4]
  have v2: "parse_value (Suc (Suc (Suc (Suc (Suc (Suc n)))))) ?b2
            = Some (JNumber (sint (End r - Start r)) 0, CHR '','' # ?m3)"
    by (rule parse_value_show_int) simp
  note p2 = member_more [OF json_safe_keys(2) v2 p3]
  have v1: "parse_value (Suc (Suc (Suc (Suc (Suc (Suc (Suc n))))))) ?b1
            = Some (JString ''function'', CHR '','' # ?m2)"
    by (rule parse_value_string) simp
  note p1 = member_more [OF json_safe_keys(1) v1 p2]
  from p1 show ?thesis
    by (simp add: show_nat_0)
qed

lemma sint_duration:
  "duration_fits r \<Longrightarrow> sint (End r - Start r) = sint (End r) - sint (Start r)"
  by (simp add: duration_fits_def sint_word_diff signed_take_bit_int_eq_self)

lemma parse_value_serialize:
  assumes "json_safe (replace (CHR 0x22) (CHR 0x27) (Name r))" and "duration_fits r"
  shows "parse_value (Suc (Suc (Suc (Suc (Suc (Suc (Suc (Suc (Suc n))))))))) (serialize r @ rest)
         = Some (event_json r, rest)"
  using parse_members_serialize [OF assms(1), of n rest]
  by (simp add: serialize_eq event_json_def skip_ws_def is_ws_def sint_duration [OF assms(2)])

lemma json_safe_replace: "plain_name s \<Longrightarrow> json_safe (replace (CHR 0x22) (CHR 0x27) s)"
  by (induction s) (simp_all add: plain_name_def json_safe_def replace_def)

lemma parse_value_event:
  assumes "plain_name (Name r)" and "duration_fits r" and "9 \<le> n"
  shows "parse_value n (serialize r @ rest) = Some (event_json r, rest)"
proof -
  have "parse_value (Suc (Suc (Suc (Suc (Suc (Suc (Suc (Suc (Suc 0))))))))) (serialize r @ rest)
        = Some (event_json r, rest)"
    using assms(1,2) by (intro parse_value_serialize json_safe_replace)
  then show ?thesis
    by (rule parse_value_fuel_mono) (use assms(3) in simp)
qed

lemma parse_elements_events:
  assumes "list_all (\<lambda>r. plain_name (Name r) \<and> duration_fits r) rs" and "rs \<noteq> []"
    and "9 + length rs \<le> n"
  shows "parse_elements n (joined (map serialize rs) @ CHR '']'' # rest) = Some (map event_json rs, rest)"
  using assms
proof (induction rs arbitrary: n)
  case Nil
  then show ?case by simp
next
  case (Cons r rs)
  from Cons.prems(3) obtain k where n: "n = Suc k" and k: "9 + length rs \<le> k"
    by (cases n) simp_all
  from Cons.prems(1) have p: "plain_name (Name r)" and d: "duration_fits r"
    and ps: "list_all (\<lambda>r. plain_name (Name r) \<and> duration_fits r) rs"
    by simp_all
  show ?case
  proof (cases "rs = []")
    case True
    have "parse_value k (serialize r @ CHR '']'' # rest) = Some (event_json r, CHR '']'' # rest)"
      using p d k by (intro parse_value_event) simp_all
    with True show ?thesis
      by (simp add: n skip_ws_def is_ws_def)
  next
    case False
    let ?more = "joined (map serialize rs) @ CHR '']'' # rest"
    have v: "parse_value k (serialize r @ CHR '','' # ?more) = Some (event_json r, CHR '','' # ?more)"
      using p d k by (intro parse_value_event) simp_all
    have e: "parse_elements k ?more = Some (map event_json rs, rest)"
      using ps False k by (intro Cons.IH) simp_all
    have j: "joined (map serialize (r # rs)) @ CHR '']'' # rest = serialize r @ CHR '','' # ?more"
      using False by (simp add: joined_Cons)
    show ?thesis
      unfolding j n by (simp add: v e skip_ws_def is_ws_def)
  qed
qed

lemma length_serialize: "0 < length (serialize r)"
  by (simp add: serialize_eq)

lemma length_joined_serialize: "length rs \<le> length (joined (map serialize rs))"
proof (induction rs)
  case Nil
  then show ?case by simp
next
  case (Cons r rs)
  then show ?case
    using length_serialize [of r] by (cases "rs = []") (simp_all add: joined_Cons Suc_le_eq)
qed

lemma serialize_hd: "\<exists>s. serialize r = CHR ''{'' # s"
  by (simp add: serialize_eq)

lemma joined_serialize_hd: "rs \<noteq> [] \<Longrightarrow> \<exists>s. joined (map serialize rs) = CHR ''{'' # s"
proof (cases rs)
  case Nil
  assume "rs \<noteq> []"
  with Nil show ?thesis by simp
next
  case (Cons r rs')
  obtain s where s: "serialize r = CHR ''{'' # s"
    using serialize_hd by blast
  show ?thesis
    by (cases rs') (simp_all add: Cons s)
qed

lemma parse_json_trace:
  assumes "list_all (\<lambda>r. plain_name (Name r) \<and> duration_fits r) rs"
  shows "parse_json (header @ joined (map serialize rs) @ footer) = Some (trace_json rs)"
proof -
  let ?body = "joined (map serialize rs)"
  let ?file = "header @ ?body @ footer"
  define n where "n = length ?file - 3"
  have len: "length ?file = 34 + length ?body"
    by (simp add: header_def footer_def)
  have n: "Suc (length ?file) = Suc (Suc (Suc (Suc n)))"
    unfolding n_def len by simp
  have n9: "9 + length rs \<le> n"
    using length_joined_serialize [of rs] unfolding n_def len by simp
  have arr: "parse_value (Suc n) (CHR ''['' # ?body @ '']}'') = Some (JArray (map event_json rs), ''}'')"
  proof (cases "rs = []")
    case True
    then show ?thesis
      by (simp add: skip_ws_def is_ws_def)
  next
    case False
    then obtain s where s: "?body = CHR ''{'' # s"
      using joined_serialize_hd by blast
    have "parse_elements n (?body @ CHR '']'' # ''}'') = Some (map event_json rs, ''}'')"
      using assms False n9 by (rule parse_elements_events)
    then show ?thesis
      by (simp add: s skip_ws_def is_ws_def)
  qed
  have other: "parse_value (Suc (Suc n)) ('' {},'' @ t) = Some (JObject [], CHR '','' # t)" for t
    by (simp add: skip_ws_def is_ws_def)
  have last_member: "parse_members (Suc (Suc n)) (CHR 0x22 # ''traceEvents'' @ CHR 0x22 # CHR '':'' # CHR ''['' # ?body @ '']}'')
        = Some ([(''traceEvents'', JArray (map event_json rs))], [])"
    by (rule member_last [OF _ arr]) simp
  have members: "parse_members (Suc (Suc (Suc n)))
          (CHR 0x22 # ''otherData'' @ CHR 0x22 # CHR '':'' # '' {},'' @ CHR 0x22 # ''traceEvents'' @ CHR 0x22 # CHR '':'' # CHR ''['' # ?body @ '']}'')
        = Some ([(''otherData'', JObject []), (''traceEvents'', JArray (map event_json rs))], [])"
    using other last_member by (intro member_more) simp_all
  have "parse_value (Suc (Suc (Suc (Suc n)))) ?file = Some (trace_json rs, [])"
    using members by (simp add: header_def footer_def trace_json_def skip_ws_def is_ws_def)
  then show ?thesis
    unfolding parse_json_def n by (simp add: skip_ws_def)
qed

subsection \<open>A whole session\<close>

text \<open>Constructing a timer touches the console only, so for the files it does not
  matter when, before its end, a timer was constructed (nested in another scope or
  not); a completed timer does to them what \<^verbatim>\<open>WriteProfile\<close> of its record does.\<close>

lemma same_output_InstrumentationTimer: "same_output (snd (InstrumentationTimer name now w)) w"
  by (simp add: InstrumentationTimer_def same_output_def)

lemma same_output_scope_timer:
  assumes "same_output w w'"
  shows "same_output (scope_timer r w) (WriteProfile r w')"
proof -
  let ?w1 = "cout_put (''Timer started for: '' @ Name r @ endl) w"
  have r: "\<lparr>Name = Name r, Start = Start r, End = End r, ThreadID = ThreadID r\<rparr> = r"
    by simp
  have "same_output ?w1 w'"
    using assms by (simp add: same_output_def)
  then have "same_output (WriteProfile r ?w1) (WriteProfile r w')"
    by (rule same_output_WriteProfile)
  then show ?thesis
    by (simp add: scope_timer_def destroy_def InstrumentationTimer_def Stop_def Let_def r
        same_output_def)
qed

lemma same_output_fold_scope_timer:
  "same_output w w' \<Longrightarrow> same_output (fold scope_timer rs w) (fold WriteProfile rs w')"
  by (induction rs arbitrary: w w') (simp_all add: same_output_scope_timer)

lemma same_output_EndSession_disk:
  "same_output w w' \<Longrightarrow> disk (EndSession w) = disk (EndSession w')"
  using same_output_EndSession [of w w'] by (simp add: same_output_def)

lemma session_disk:
  assumes "is_open (m_OutputStream w) = None" and "m_ProfileCount w = 0" and "openable w filepath"
    and "length rs < 2 ^ 31"
  shows "disk (EndSession (fold scope_timer rs (BeginSession name filepath w))) filepath
         = Some (header @ joined (map serialize rs) @ footer)"
proof -
  let ?w1 = "BeginSession name filepath w"
  let ?w2 = "fold WriteProfile rs ?w1"
  have w1: "?w1 = w\<lparr>m_CurrentSession := Some \<lparr>InstrumentationSession.Name = name\<rparr>,
             m_OutputStream := \<lparr>is_open = Some filepath, failed = False\<rparr>,
             disk := (disk w)(filepath \<mapsto> header),
             cout := cout w @ ''Session started: '' @ name @ endl\<rparr>"
    using assms(1,3) by (rule BeginSession_closed)
  have o: "is_open (m_OutputStream ?w1) = Some filepath" and f: "\<not> failed (m_OutputStream ?w1)"
    and d: "disk ?w1 filepath = Some header" and c: "m_ProfileCount ?w1 = word_of_nat 0"
    using assms(2) by (simp_all add: w1)
  from fold_WriteProfile_open [OF o f d c, of rs] assms(4)
  have d2: "disk ?w2 filepath = Some (header @ joined (map serialize rs))"
    and s2: "m_OutputStream ?w2 = m_OutputStream ?w1"
    by (simp_all add: records_from_0)
  have "disk (EndSession (fold scope_timer rs ?w1)) = disk (EndSession ?w2)"
    by (intro same_output_EndSession_disk same_output_fold_scope_timer same_output_refl)
  also have "EndSession ?w2 =
           ?w2\<lparr>m_CurrentSession := None,
             m_OutputStream := \<lparr>is_open = None, failed = False\<rparr>,
             m_ProfileCount := 0,
             disk := (disk ?w2)(filepath \<mapsto> (header @ joined (map serialize rs)) @ footer),
             cout := cout ?w2 @ ''Session ended'' @ endl\<rparr>"
    using o f d2 by (intro EndSession_open) (simp_all add: s2)
  finally show ?thesis
    by simp
qed

text \<open>
  Claim C3, as stated, fails: it speaks of every run, and a timer may have any name. One
  timer whose name is an \<^verbatim>\<open>a\<close> followed by a backslash, between \<^verbatim>\<open>BeginSession\<close> and
  \<^verbatim>\<open>EndSession\<close> leaves a file that is not JSON: the backslash escapes the quote that
  should close the name.
\<close>

theorem backslash_breaks_round_trip:
  "disk (EndSession (fold scope_timer [\<lparr>Name = [CHR ''a'', CHR 0x5C], Start = 100, End = 150, ThreadID = 7\<rparr>]
           (BeginSession ''P'' ''r.json'' fresh))) ''r.json''
   = Some (header @ serialize \<lparr>Name = [CHR ''a'', CHR 0x5C], Start = 100, End = 150, ThreadID = 7\<rparr> @ footer)
   \<and> parse_json (header @ serialize \<lparr>Name = [CHR ''a'', CHR 0x5C], Start = 100, End = 150, ThreadID = 7\<rparr> @ footer)
     = None"
  by code_simp

text \<open>
  Claim C3, amended. Start where no file is open on the stream and the counter is 0 (as
  after construction, or after \<^verbatim>\<open>EndSession\<close>), with a path that can be opened.
  \<^verbatim>\<open>BeginSession\<close>, then \<open>N < 2 ^ 31\<close> completed scope timers whose names have no
  backslash and no control character and whose durations fit in 64 bits, then
  \<^verbatim>\<open>EndSession\<close> leave in the file the header, the records joined by commas and the
  footer. That text parses as JSON, to the object with an empty \<^verbatim>\<open>otherData\<close> and the
  array \<^verbatim>\<open>traceEvents\<close> of exactly the \<open>N\<close> objects \<open>event_json r\<close>, each with the seven
  fields in order.
\<close>

theorem trace_round_trip:
  assumes "is_open (m_OutputStream w) = None" and "m_ProfileCount w = 0" and "openable w filepath"
    and "length rs < 2 ^ 31"
    and "list_all (\<lambda>r. plain_name (Name r) \<and> duration_fits r) rs"
  shows "disk (EndSession (fold scope_timer rs (BeginSession name filepath w))) filepath
         = Some (header @ joined (map serialize rs) @ footer)
       \<and> parse_json (header @ joined (map serialize rs) @ footer) = Some (trace_json rs)"
  using session_disk [OF assms(1-4)] parse_json_trace [OF assms(5)]
  by simp

theorem trace_round_trip_witness:
  \<open>disk (EndSession (fold scope_timer
           [\<lparr>Name = ''f1'', Start = 100, End = 150, ThreadID = 7\<rparr>,
            \<lparr>Name = ''f2'', Start = 150, End = 210, ThreadID = 7\<rparr>]
           (BeginSession ''P'' ''r.json'' fresh))) ''r.json''
   = Some ''{"otherData": {},"traceEvents":[{"cat":"function","dur":50,"name":"f1","ph":"X","pid":0,"tid":7,"ts":100},{"cat":"function","dur":60,"name":"f2","ph":"X","pid":0,"tid":7,"ts":150}]}''
   \<and> parse_json ''{"otherData": {},"traceEvents":[{"cat":"function","dur":50,"name":"f1","ph":"X","pid":0,"tid":7,"ts":100},{"cat":"function","dur":60,"name":"f2","ph":"X","pid":0,"tid":7,"ts":150}]}''
   = Some (JObject
        [(''otherData'', JObject []),
         (''traceEvents'', JArray
            [JObject [(''cat'', JString ''function''), (''dur'', JNumber 50 0), (''name'', JString ''f1''),
                      (''ph'', JString ''X''), (''pid'', JNumber 0 0), (''tid'', JNumber 7 0),
                      (''ts'', JNumber 100 0)],
             JObject [(''cat'', JString ''function''), (''dur'', JNumber 60 0), (''name'', JString ''f2''),
                      (''ph'', JString ''X''), (''pid'', JNumber 0 0), (''tid'', JNumber 7 0),
                      (''ts'', JNumber 150 0)]])])\<close>
proof -
  let ?rs = "[\<lparr>Name = ''f1'', Start = 100, End = 150, ThreadID = 7\<rparr>,
              \<lparr>Name = ''f2'', Start = 150, End = 210, ThreadID = 7\<rparr>]"
  have 1: "is_open (m_OutputStream fresh) = None" by code_simp
  have 2: "m_ProfileCount fresh = 0" by code_simp
  have 3: "openable fresh ''r.json''" by code_simp
  have 4: "length ?rs < 2 ^ 31" by simp
  have 5: "list_all (\<lambda>r. plain_name (Name r) \<and> duration_fits r) ?rs"
    by (simp add: plain_name_def duration_fits_def)
  have f: \<open>header @ joined (map serialize ?rs) @ footer
     = ''{"otherData": {},"traceEvents":[{"cat":"function","dur":50,"name":"f1","ph":"X","pid":0,"tid":7,"ts":100},{"cat":"function","dur":60,"name":"f2","ph":"X","pid":0,"tid":7,"ts":150}]}''\<close>
    by code_simp
  have t: "trace_json ?rs = JObject
        [(''otherData'', JObject []),
         (''traceEvents'', JArray
            [JObject [(''cat'', JString ''function''), (''dur'', JNumber 50 0), (''name'', JString ''f1''),
                      (''ph'', JString ''X''), (''pid'', JNumber 0 0), (''tid'', JNumber 7 0),
                      (''ts'', JNumber 100 0)],
             JObject [(''cat'', JString ''function''), (''dur'', JNumber 60 0), (''name'', JString ''f2''),
                      (''ph'', JString ''X''), (''pid'', JNumber 0 0), (''tid'', JNumber 7 0),
                      (''ts'', JNumber 150 0)]])]"
    by (simp add: trace_json_def event_json_def replace_def)
  from trace_round_trip [OF 1 2 3 4 5, of "''P''"] show ?thesis
    unfolding f t .
qed

subsection \<open>The name of a record\<close>

lemma length_serialize_ge: "9 \<le> length (serialize r)"
  by (simp add: serialize_eq)

lemma parse_json_event:
  assumes "plain_name (Name r)" and "duration_fits r"
  shows "parse_json (serialize r) = Some (event_json r)"
proof -
  have "parse_value (Suc (length (serialize r))) (serialize r @ []) = Some (event_json r, [])"
    using assms length_serialize_ge [of r] by (intro parse_value_event) simp_all
  then show ?thesis
    by (simp add: parse_json_def skip_ws_def)
qed

text \<open>What one call of \<^verbatim>\<open>WriteProfile\<close> appends to the file of an open stream.\<close>

lemma WriteProfile_disk:
  assumes "is_open (m_OutputStream w) = Some p" and "\<not> failed (m_OutputStream w)"
    and "disk w p = Some c"
  shows "disk (WriteProfile r w) p
         = Some (c @ (if 0 < sint (m_ProfileCount w) then '','' else []) @ serialize r)"
  using WriteProfile_open [OF assms, of r] by simp

text \<open>
  Claim C5, as stated, fails in its last part: it promises a parseable entry for every
  name that contains quotes. Take the name made of a double quote and a backslash, which
  contains a quote. \<^verbatim>\<open>WriteProfile\<close>, called first in a session, appends to the file a
  record in which the quote has become an apostrophe and the backslash escapes the quote
  that should close the string: the record is not JSON, and neither is the file that
  \<^verbatim>\<open>EndSession\<close> leaves.
\<close>

theorem quote_and_backslash_not_parseable:
  \<open>CHR 0x22 \<in> set [CHR 0x22, CHR 0x5C]
   \<and> disk (WriteProfile \<lparr>Name = [CHR 0x22, CHR 0x5C], Start = 100, End = 150, ThreadID = 7\<rparr> (BeginSession ''P'' ''r.json'' fresh)) ''r.json''
       = Some (header @ ''{"cat":"function","dur":50,"name":"'' @ [CHR 0x27, CHR 0x5C] @ ''","ph":"X","pid":0,"tid":7,"ts":100}'')
   \<and> parse_json (''{"cat":"function","dur":50,"name":"'' @ [CHR 0x27, CHR 0x5C] @ ''","ph":"X","pid":0,"tid":7,"ts":100}'') = None
   \<and> disk (EndSession (WriteProfile \<lparr>Name = [CHR 0x22, CHR 0x5C], Start = 100, End = 150, ThreadID = 7\<rparr> (BeginSession ''P'' ''r.json'' fresh))) ''r.json''
       = Some (header @ ''{"cat":"function","dur":50,"name":"'' @ [CHR 0x27, CHR 0x5C] @ ''","ph":"X","pid":0,"tid":7,"ts":100}'' @ footer)
   \<and> parse_json (header @ ''{"cat":"function","dur":50,"name":"'' @ [CHR 0x27, CHR 0x5C] @ ''","ph":"X","pid":0,"tid":7,"ts":100}'' @ footer) = None\<close>
  by code_simp

text \<open>
  Claim C5, amended. On a stream that is open without error, \<^verbatim>\<open>WriteProfile\<close> appends
  to the file, after the separator if one is due, the record with the name in which
  each double quote has been replaced by an apostrophe, so the emitted name holds no
  double quote at all; and when the name has no backslash and no control character (and
  the duration fits in 64 bits) the record appended parses as JSON, to the object
  \<open>event_json r\<close> whose name is the name after the replacement.
\<close>

theorem quotes_replaced:
  assumes "is_open (m_OutputStream w) = Some p" and "\<not> failed (m_OutputStream w)"
    and "disk w p = Some c"
  shows \<open>disk (WriteProfile r w) p
           = Some (c @ (if 0 < sint (m_ProfileCount w) then '','' else [])
                   @ ''{"cat":"function","dur":'' @ show_int (sint (End r - Start r))
              @ '',"name":"'' @ replace (CHR 0x22) (CHR 0x27) (Name r)
              @ ''","ph":"X","pid":0,"tid":'' @ show_nat (unat (ThreadID r))
              @ '',"ts":'' @ show_int (sint (Start r)) @ ''}'')
       \<and> CHR 0x22 \<notin> set (replace (CHR 0x22) (CHR 0x27) (Name r))
       \<and> (plain_name (Name r) \<and> duration_fits r \<longrightarrow>
            parse_json (''{"cat":"function","dur":'' @ show_int (sint (End r - Start r))
              @ '',"name":"'' @ replace (CHR 0x22) (CHR 0x27) (Name r)
              @ ''","ph":"X","pid":0,"tid":'' @ show_nat (unat (ThreadID r))
              @ '',"ts":'' @ show_int (sint (Start r)) @ ''}'')
            = Some (event_json r))\<close>
proof -
  have a: \<open>disk (WriteProfile r w) p
           = Some (c @ (if 0 < sint (m_ProfileCount w) then '','' else [])
                   @ ''{"cat":"function","dur":'' @ show_int (sint (End r - Start r))
              @ '',"name":"'' @ replace (CHR 0x22) (CHR 0x27) (Name r)
              @ ''","ph":"X","pid":0,"tid":'' @ show_nat (unat (ThreadID r))
              @ '',"ts":'' @ show_int (sint (Start r)) @ ''}'')\<close>
    using WriteProfile_disk [OF assms, of r] by (simp add: serialize_eq)
  have b: "CHR 0x22 \<notin> set (replace (CHR 0x22) (CHR 0x27) (Name r))"
    by (auto simp: replace_def)
  have c: \<open>plain_name (Name r) \<and> duration_fits r \<longrightarrow>
            parse_json (''{"cat":"function","dur":'' @ show_int (sint (End r - Start r))
              @ '',"name":"'' @ replace (CHR 0x22) (CHR 0x27) (Name r)
              @ ''","ph":"X","pid":0,"tid":'' @ show_nat (unat (ThreadID r))
              @ '',"ts":'' @ show_int (sint (Start r)) @ ''}'')
            = Some (event_json r)\<close>
    using parse_json_event [of r] by (simp add: serialize_eq)
  show ?thesis
    by (intro conjI a b c)
qed

theorem quotes_replaced_witness:
  \<open>disk (WriteProfile \<lparr>Name = ''fn("x")'', Start = 100, End = 150, ThreadID = 7\<rparr> (BeginSession ''P'' ''r.json'' fresh)) ''r.json''
     = Some (header @ ''{"cat":"function","dur":50,"name":"'' @ ''fn('' @ [CHR 0x27] @ ''x'' @ [CHR 0x27] @ '')'' @ ''","ph":"X","pid":0,"tid":7,"ts":100}'')
   \<and> parse_json (''{"cat":"function","dur":50,"name":"'' @ ''fn('' @ [CHR 0x27] @ ''x'' @ [CHR 0x27] @ '')'' @ ''","ph":"X","pid":0,"tid":7,"ts":100}'')
     = Some (JObject [(''cat'', JString ''function''), (''dur'', JNumber 50 0),
                      (''name'', JString (''fn('' @ [CHR 0x27] @ ''x'' @ [CHR 0x27] @ '')'')),
                      (''ph'', JString ''X''), (''pid'', JNumber 0 0), (''tid'', JNumber 7 0),
                      (''ts'', JNumber 100 0)])\<close>
proof -
  let ?w = "(BeginSession ''P'' ''r.json'' fresh)"
  let ?r = \<open>\<lparr>Name = ''fn("x")'', Start = 100, End = 150, ThreadID = 7\<rparr>\<close>
  have 1: "is_open (m_OutputStream ?w) = Some ''r.json''" by code_simp
  have 2: "\<not> failed (m_OutputStream ?w)" by code_simp
  have 3: "disk ?w ''r.json'' = Some header" by code_simp
  have 4: "plain_name (Name ?r)"
    by (simp add: plain_name_def)
  have 5: "duration_fits ?r"
    by (simp add: duration_fits_def)
  have sep: "(if 0 < sint (m_ProfileCount ?w) then '','' else []) = []"
    by code_simp
  have e: \<open>''{"cat":"function","dur":'' @ show_int (sint (End ?r - Start ?r))
              @ '',"name":"'' @ replace (CHR 0x22) (CHR 0x27) (Name ?r)
              @ ''","ph":"X","pid":0,"tid":'' @ show_nat (unat (ThreadID ?r))
              @ '',"ts":'' @ show_int (sint (Start ?r)) @ ''}''
           = ''{"cat":"function","dur":50,"name":"'' @ ''fn('' @ [CHR 0x27] @ ''x'' @ [CHR 0x27] @ '')'' @ ''","ph":"X","pid":0,"tid":7,"ts":100}''\<close>
    by code_simp
  have ev: "event_json ?r
       = JObject [(''cat'', JString ''function''), (''dur'', JNumber 50 0),
                  (''name'', JString (''fn('' @ [CHR 0x27] @ ''x'' @ [CHR 0x27] @ '')'')),
                  (''ph'', JString ''X''), (''pid'', JNumber 0 0), (''tid'', JNumber 7 0),
                  (''ts'', JNumber 100 0)]"
    by (simp add: event_json_def replace_def)
  from quotes_replaced [OF 1 2 3, of ?r] 4 5 show ?thesis
    unfolding sep e ev by simp
qed

text \<open>
  Claim C9. On a stream that is open without error, the name that \<^verbatim>\<open>WriteProfile\<close>
  appends to the file is the name as \<^verbatim>\<open>std::replace\<close> leaves it: byte for byte, a
  double quote turned into an apostrophe and every other byte, backslashes and control
  characters among them, as it is. So there are names whose record is not JSON. With
  the name that is a single backslash, the record that \<^verbatim>\<open>WriteProfile\<close> appends first
  in a session is not JSON, and neither is the file that \<^verbatim>\<open>EndSession\<close> leaves; the
  same holds for the name that is a single line feed.
\<close>

theorem name_copied_but_quotes:
  assumes "is_open (m_OutputStream w) = Some p" and "\<not> failed (m_OutputStream w)"
    and "disk w p = Some c"
  shows \<open>disk (WriteProfile r w) p
           = Some (c @ (if 0 < sint (m_ProfileCount w) then '','' else [])
                   @ ''{"cat":"function","dur":'' @ show_int (sint (End r - Start r))
              @ '',"name":"'' @ map (\<lambda>x. if x = CHR 0x22 then CHR 0x27 else x) (Name r)
              @ ''","ph":"X","pid":0,"tid":'' @ show_nat (unat (ThreadID r))
              @ '',"ts":'' @ show_int (sint (Start r)) @ ''}'')
       \<and> disk (WriteProfile \<lparr>Name = [CHR 0x5C], Start = 100, End = 150, ThreadID = 7\<rparr> (BeginSession ''P'' ''r.json'' fresh)) ''r.json''
           = Some (header @ ''{"cat":"function","dur":50,"name":"'' @ [CHR 0x5C] @ ''","ph":"X","pid":0,"tid":7,"ts":100}'')
       \<and> parse_json (''{"cat":"function","dur":50,"name":"'' @ [CHR 0x5C] @ ''","ph":"X","pid":0,"tid":7,"ts":100}'') = None
       \<and> disk (EndSession (WriteProfile \<lparr>Name = [CHR 0x5C], Start = 100, End = 150, ThreadID = 7\<rparr> (BeginSession ''P'' ''r.json'' fresh))) ''r.json''
           = Some (header @ ''{"cat":"function","dur":50,"name":"'' @ [CHR 0x5C] @ ''","ph":"X","pid":0,"tid":7,"ts":100}'' @ footer)
       \<and> parse_json (header @ ''{"cat":"function","dur":50,"name":"'' @ [CHR 0x5C] @ ''","ph":"X","pid":0,"tid":7,"ts":100}'' @ footer) = None
       \<and> disk (WriteProfile \<lparr>Name = [CHR 0x0A], Start = 100, End = 150, ThreadID = 7\<rparr> (BeginSession ''P'' ''r.json'' fresh)) ''r.json''
           = Some (header @ ''{"cat":"function","dur":50,"name":"'' @ [CHR 0x0A] @ ''","ph":"X","pid":0,"tid":7,"ts":100}'')
       \<and> parse_json (''{"cat":"function","dur":50,"name":"'' @ [CHR 0x0A] @ ''","ph":"X","pid":0,"tid":7,"ts":100}'') = None
       \<and> disk (EndSession (WriteProfile \<lparr>Name = [CHR 0x0A], Start = 100, End = 150, ThreadID = 7\<rparr> (BeginSession ''P'' ''r.json'' fresh))) ''r.json''
           = Some (header @ ''{"cat":"function","dur":50,"name":"'' @ [CHR 0x0A] @ ''","ph":"X","pid":0,"tid":7,"ts":100}'' @ footer)
       \<and> parse_json (header @ ''{"cat":"function","dur":50,"name":"'' @ [CHR 0x0A] @ ''","ph":"X","pid":0,"tid":7,"ts":100}'' @ footer) = None\<close>
proof -
  have a: \<open>disk (WriteProfile r w) p
           = Some (c @ (if 0 < sint (m_ProfileCount w) then '','' else [])
                   @ ''{"cat":"function","dur":'' @ show_int (sint (End r - Start r))
              @ '',"name":"'' @ map (\<lambda>x. if x = CHR 0x22 then CHR 0x27 else x) (Name r)
              @ ''","ph":"X","pid":0,"tid":'' @ show_nat (unat (ThreadID r))
              @ '',"ts":'' @ show_int (sint (Start r)) @ ''}'')\<close>
    using WriteProfile_disk [OF assms, of r] by (simp add: serialize_eq replace_def)
  have b1: \<open>disk (WriteProfile \<lparr>Name = [CHR 0x5C], Start = 100, End = 150, ThreadID = 7\<rparr> (BeginSession ''P'' ''r.json'' fresh)) ''r.json''
           = Some (header @ ''{"cat":"function","dur":50,"name":"'' @ [CHR 0x5C] @ ''","ph":"X","pid":0,"tid":7,"ts":100}'')\<close>
    by code_simp
  have b2: \<open>parse_json (''{"cat":"function","dur":50,"name":"'' @ [CHR 0x5C] @ ''","ph":"X","pid":0,"tid":7,"ts":100}'') = None\<close>
    by code_simp
  have b3: \<open>disk (EndSession (WriteProfile \<lparr>Name = [CHR 0x5C], Start = 100, End = 150, ThreadID = 7\<rparr> (BeginSession ''P'' ''r.json'' fresh))) ''r.json''
           = Some (header @ ''{"cat":"function","dur":50,"name":"'' @ [CHR 0x5C] @ ''","ph":"X","pid":0,"tid":7,"ts":100}'' @ footer)\<close>
    by code_simp
  have b4: \<open>parse_json (header @ ''{"cat":"function","dur":50,"name":"'' @ [CHR 0x5C] @ ''","ph":"X","pid":0,"tid":7,"ts":100}'' @ footer) = None\<close>
    by code_simp
  have l1: \<open>disk (WriteProfile \<lparr>Name = [CHR 0x0A], Start = 100, End = 150, ThreadID = 7\<rparr> (BeginSession ''P'' ''r.json'' fresh)) ''r.json''
           = Some (header @ ''{"cat":"function","dur":50,"name":"'' @ [CHR 0x0A] @ ''","ph":"X","pid":0,"tid":7,"ts":100}'')\<close>
    by code_simp
  have l2: \<open>parse_json (''{"cat":"function","dur":50,"name":"'' @ [CHR 0x0A] @ ''","ph":"X","pid":0,"tid":7,"ts":100}'') = None\<close>
    by code_simp
  have l3: \<open>disk (EndSession (WriteProfile \<lparr>Name = [CHR 0x0A], Start = 100, End = 150, ThreadID = 7\<rparr> (BeginSession ''P'' ''r.json'' fresh))) ''r.json''
           = Some (header @ ''{"cat":"function","dur":50,"name":"'' @ [CHR 0x0A] @ ''","ph":"X","pid":0,"tid":7,"ts":100}'' @ footer)\<close>
    by code_simp
  have l4: \<open>parse_json (header @ ''{"cat":"function","dur":50,"name":"'' @ [CHR 0x0A] @ ''","ph":"X","pid":0,"tid":7,"ts":100}'' @ footer) = None\<close>
    by code_simp
  show ?thesis
    by (intro conjI a b1 b2 b3 b4 l1 l2 l3 l4)
qed

theorem name_copied_but_quotes_witness:
  \<open>disk (WriteProfile \<lparr>Name = ''a"b'' @ [CHR 0x5C, CHR 0x0A], Start = 100, End = 150, ThreadID = 7\<rparr> (BeginSession ''P'' ''r.json'' fresh)) ''r.json''
     = Some (header @ ''{"cat":"function","dur":50,"name":"'' @ ''a'' @ [CHR 0x27] @ ''b'' @ [CHR 0x5C, CHR 0x0A] @ ''","ph":"X","pid":0,"tid":7,"ts":100}'')\<close>
proof -
  let ?w = "(BeginSession ''P'' ''r.json'' fresh)"
  let ?r = \<open>\<lparr>Name = ''a"b'' @ [CHR 0x5C, CHR 0x0A], Start = 100, End = 150, ThreadID = 7\<rparr>\<close>
  have 1: "is_open (m_OutputStream ?w) = Some ''r.json''" by code_simp
  have 2: "\<not> failed (m_OutputStream ?w)" by code_simp
  have 3: "disk ?w ''r.json'' = Some header" by code_simp
  have sep: "(if 0 < sint (m_ProfileCount ?w) then '','' else []) = []"
    by code_simp
  have e: \<open>''{"cat":"function","dur":'' @ show_int (sint (End ?r - Start ?r))
              @ '',"name":"'' @ map (\<lambda>x. if x = CHR 0x22 then CHR 0x27 else x) (Name ?r)
              @ ''","ph":"X","pid":0,"tid":'' @ show_nat (unat (ThreadID ?r))
              @ '',"ts":'' @ show_int (sint (Start ?r)) @ ''}''
           = ''{"cat":"function","dur":50,"name":"'' @ ''a'' @ [CHR 0x27] @ ''b'' @ [CHR 0x5C, CHR 0x0A] @ ''","ph":"X","pid":0,"tid":7,"ts":100}''\<close>
    by code_simp
  from name_copied_but_quotes [OF 1 2 3, of ?r] have
    \<open>disk (WriteProfile ?r ?w) ''r.json''
       = Some (header @ (if 0 < sint (m_ProfileCount ?w) then '','' else [])
               @ ''{"cat":"function","dur":'' @ show_int (sint (End ?r - Start ?r))
              @ '',"name":"'' @ map (\<lambda>x. if x = CHR 0x22 then CHR 0x27 else x) (Name ?r)
              @ ''","ph":"X","pid":0,"tid":'' @ show_nat (unat (ThreadID ?r))
              @ '',"ts":'' @ show_int (sint (Start ?r)) @ ''}'')\<close>
    by (rule conjunct1)
  then show ?thesis
    unfolding sep e by simp
qed

end
